theory Spec2Isabelle
  imports Main
begin

section \<open>The document and the script's variables\<close>

text \<open>
  Modelled from the spec: the markup. The script \<^verbatim>\<open>index.js\<close> works on a document
  that is not among the sources; the document is taken as the spec's data model has it.
  Every managed image (\<^verbatim>\<open>img.lazy\<close> inside the gallery) has at most one button of its
  own (what \<^verbatim>\<open>img.closest('.card')?.querySelector('.load-now')\<close> finds), at most one
  placeholder wrapper of its own (\<^verbatim>\<open>img.closest('.skeleton')\<close>) and at most one enclosing
  \<^verbatim>\<open>picture\<close> with its \<^verbatim>\<open>source[data-srcset]\<close> children. An image is named by its
  position in \<^verbatim>\<open>gallery.querySelectorAll('img.lazy')\<close>. The functions below are those
  of the script.
\<close>

text \<open>The four texts a button shows: the markup's own, and the three the script writes.\<close>

datatype caption = Markup_caption | Loading_caption | Done_caption | Retry_caption

text \<open>The text of \<^verbatim>\<open>modeLabel\<close>: the markup's own, or one of the two \<^verbatim>\<open>toggleMode\<close> writes.\<close>

datatype mode_caption = Markup_mode | Auto_on_scroll | Po_kliku_on_click

record button =
  hidden :: bool
  disabled :: bool
  textContent :: caption
  clickHandlers :: nat

record source_elem =
  source_data_srcset :: "string option"
  source_srcset :: "string option"

text \<open>
  An image. \<open>loaded\<close> is \<^verbatim>\<open>img.classList.contains('loaded')\<close>; \<open>skeleton\<close> is the
  wrapper's own \<^verbatim>\<open>loaded\<close> class, when there is a wrapper. \<open>load_listeners\<close> and
  \<open>error_listeners\<close> are the \<^verbatim>\<open>onLoad\<close> and \<^verbatim>\<open>onError\<close> closures registered on
  the image, in registration order; a closure is named by the promise of the
  \<^verbatim>\<open>loadImage\<close> call that created it.
\<close>

record img =
  loaded :: bool
  data_src :: "string option"
  data_srcset :: "string option"
  data_sizes :: "string option"
  data_load :: "string option"
  src :: "string option"
  srcset :: "string option"
  sizes :: "string option"
  picture :: "source_elem list option"
  skeleton :: "bool option"
  btn :: "button option"
  load_listeners :: "nat list"
  error_listeners :: "nat list"

text \<open>
  A promise returned by \<^verbatim>\<open>loadImage\<close>, with the one reaction its caller attaches:
  the rest of the button's \<^verbatim>\<open>async\<close> click handler, the empty \<^verbatim>\<open>catch\<close> of the
  observer callback, or \<^verbatim>\<open>Promise.allSettled\<close>. The rejection value is the error event.
\<close>

datatype pstate = Pending | Fulfilled | Rejected nat

datatype reaction = No_reaction | Click_reaction nat | Catch_reaction | AllSettled_reaction

record promise =
  pstate :: pstate
  reaction :: reaction

text \<open>The \<^verbatim>\<open>IntersectionObserver\<close>: which instance it is, and the images it observes.\<close>

record observer =
  oid :: nat
  targets :: "nat list"

text \<open>
  What the script does that leaves no mark on the document is written to a trace:
  registering a listener, calling \<^verbatim>\<open>applyDataAttributes\<close>, calling \<^verbatim>\<open>cleanup\<close>,
  and the two console messages.
\<close>

datatype effect =
    Listen_load nat nat
  | Listen_error nat nat
  | Commit nat
  | Cleanup nat nat
  | Console_warn nat
  | Console_log

record state =
  images :: "img list"
  io :: "observer option"
  currentMode :: string
  modeLabel :: mode_caption
  promises :: "promise list"
  observers_made :: nat
  trace :: "effect list"

text \<open>
  Writing to image \<open>i\<close>, to its button when it has one (the script's \<^verbatim>\<open>btn?.\<close>),
  and to the trace.
\<close>

definition upd_img :: "nat \<Rightarrow> (img \<Rightarrow> img) \<Rightarrow> state \<Rightarrow> state" where
  "upd_img i f s = s\<lparr>images := (images s)[i := f (images s ! i)]\<rparr>"

definition upd_btn :: "nat \<Rightarrow> (button \<Rightarrow> button) \<Rightarrow> state \<Rightarrow> state" where
  "upd_btn i f s = upd_img i (\<lambda>im. im\<lparr>btn := map_option f (btn im)\<rparr>) s"

definition emit :: "effect \<Rightarrow> state \<Rightarrow> state" where
  "emit e s = s\<lparr>trace := trace s @ [e]\<rparr>"

section \<open>applyDataAttributes\<close>

text \<open>A JavaScript string is truthy when it is there and not empty.\<close>

definition truthy :: "string option \<Rightarrow> bool" where
  "truthy v = (case v of None \<Rightarrow> False | Some x \<Rightarrow> x \<noteq> [])"

definition apply_source :: "source_elem \<Rightarrow> source_elem" where
  "apply_source so =
     (case source_data_srcset so of
        None \<Rightarrow> so
      | Some v \<Rightarrow> so\<lparr>source_srcset := Some v\<rparr>)"

definition applyDataAttributes :: "img \<Rightarrow> img" where
  "applyDataAttributes im =
     (let im1 = (case picture im of
                   None \<Rightarrow> im
                 | Some sources \<Rightarrow> im\<lparr>picture := Some (map apply_source sources)\<rparr>);
          im2 = (if truthy (data_src im1) then im1\<lparr>src := data_src im1\<rparr> else im1);
          im3 = (if truthy (data_srcset im2) then im2\<lparr>srcset := data_srcset im2\<rparr> else im2)
      in (if truthy (data_sizes im3) then im3\<lparr>sizes := data_sizes im3\<rparr> else im3))"

definition commit :: "nat \<Rightarrow> state \<Rightarrow> state" where
  "commit i s = emit (Commit i) (upd_img i applyDataAttributes s)"

section \<open>Promises\<close>

text \<open>
  Settling a promise: the first \<^verbatim>\<open>resolve\<close> or \<^verbatim>\<open>reject\<close> wins, later ones do
  nothing. The reaction runs when the promise settles. The rest of the click handler
  writes the done text on success, and on failure the retry text and
  \<^verbatim>\<open>btn.disabled = false\<close>; the other reactions change nothing.
\<close>

definition react :: "reaction \<Rightarrow> pstate \<Rightarrow> state \<Rightarrow> state" where
  "react r st s =
     (case r of
        Click_reaction i \<Rightarrow>
          (case st of
             Pending \<Rightarrow> s
           | Fulfilled \<Rightarrow> upd_btn i (\<lambda>b. b\<lparr>textContent := Done_caption\<rparr>) s
           | Rejected e \<Rightarrow> upd_btn i (\<lambda>b. b\<lparr>textContent := Retry_caption, disabled := False\<rparr>) s)
      | _ \<Rightarrow> s)"

definition settle :: "nat \<Rightarrow> pstate \<Rightarrow> state \<Rightarrow> state" where
  "settle p st s =
     (if p < length (promises s) \<and> pstate (promises s ! p) = Pending
      then react (reaction (promises s ! p)) st
             (s\<lparr>promises := (promises s)[p := (promises s ! p)\<lparr>pstate := st\<rparr>]\<rparr>)
      else s)"

definition new_promise :: "state \<Rightarrow> state" where
  "new_promise s = s\<lparr>promises := promises s @ [\<lparr>pstate = Pending, reaction = No_reaction\<rparr>]\<rparr>"

section \<open>loadImage\<close>

definition addLoadListener :: "nat \<Rightarrow> nat \<Rightarrow> state \<Rightarrow> state" where
  "addLoadListener i p s =
     emit (Listen_load i p) (upd_img i (\<lambda>im. im\<lparr>load_listeners := load_listeners im @ [p]\<rparr>) s)"

definition addErrorListener :: "nat \<Rightarrow> nat \<Rightarrow> state \<Rightarrow> state" where
  "addErrorListener i p s =
     emit (Listen_error i p) (upd_img i (\<lambda>im. im\<lparr>error_listeners := error_listeners im @ [p]\<rparr>) s)"

text \<open>
  \<^verbatim>\<open>loadImage(img)\<close> returns its promise (the next free place of the promise store) and
  the new state. The early return on \<^verbatim>\<open>classList.contains('loaded')\<close> is the only guard.
  Every call makes closures of its own, so \<^verbatim>\<open>addEventListener\<close> never meets a listener
  that is registered already.
\<close>

definition loadImage :: "nat \<Rightarrow> state \<Rightarrow> nat \<times> state" where
  "loadImage i s =
     (let p = length (promises s); s0 = new_promise s
      in if loaded (images s0 ! i) then (p, settle p Fulfilled s0)
         else (p, commit i (addErrorListener i p (addLoadListener i p s0))))"

text \<open>The closures \<^verbatim>\<open>cleanup\<close>, \<^verbatim>\<open>onLoad\<close> and \<^verbatim>\<open>onError\<close> of the call with promise \<open>p\<close>.\<close>

definition cleanup :: "nat \<Rightarrow> nat \<Rightarrow> state \<Rightarrow> state" where
  "cleanup i p s =
     emit (Cleanup i p)
       (upd_img i (\<lambda>im. im\<lparr>load_listeners := removeAll p (load_listeners im),
                            error_listeners := removeAll p (error_listeners im)\<rparr>) s)"

definition onLoad :: "nat \<Rightarrow> nat \<Rightarrow> state \<Rightarrow> state" where
  "onLoad i p s =
     settle p Fulfilled
       (cleanup i p
          (upd_img i (\<lambda>im. im\<lparr>loaded := True, skeleton := map_option (\<lambda>_. True) (skeleton im)\<rparr>) s))"

definition onError :: "nat \<Rightarrow> nat \<Rightarrow> nat \<Rightarrow> state \<Rightarrow> state" where
  "onError i p e s = settle p (Rejected e) (cleanup i p (emit (Console_warn e) s))"

text \<open>
  The browser dispatching \<^verbatim>\<open>load\<close> or \<^verbatim>\<open>error\<close> at an image: it walks a copy of the
  listener list, skips a listener removed in the meantime, and, the listeners being
  registered with \<^verbatim>\<open>once: true\<close>, removes each one before calling it.
\<close>

fun dispatchLoad :: "nat \<Rightarrow> nat list \<Rightarrow> state \<Rightarrow> state" where
  "dispatchLoad i [] s = s"
| "dispatchLoad i (p # ps) s =
     dispatchLoad i ps
       (if p \<in> set (load_listeners (images s ! i))
        then onLoad i p (upd_img i (\<lambda>im. im\<lparr>load_listeners := removeAll p (load_listeners im)\<rparr>) s)
        else s)"

fun dispatchError :: "nat \<Rightarrow> nat \<Rightarrow> nat list \<Rightarrow> state \<Rightarrow> state" where
  "dispatchError i e [] s = s"
| "dispatchError i e (p # ps) s =
     dispatchError i e ps
       (if p \<in> set (error_listeners (images s ! i))
        then onError i p e (upd_img i (\<lambda>im. im\<lparr>error_listeners := removeAll p (error_listeners im)\<rparr>) s)
        else s)"

definition fireLoad :: "nat \<Rightarrow> state \<Rightarrow> state" where
  "fireLoad i s = dispatchLoad i (load_listeners (images s ! i)) s"

definition fireError :: "nat \<Rightarrow> nat \<Rightarrow> state \<Rightarrow> state" where
  "fireError i e s = dispatchError i e (error_listeners (images s ! i)) s"

section \<open>The observer\<close>

text \<open>
  \<^verbatim>\<open>img.dataset.load || 'scroll'\<close>: the attribute when it is there and not empty,
  \<^verbatim>\<open>'scroll'\<close> otherwise.
\<close>

definition loadMode :: "img \<Rightarrow> string" where
  "loadMode im =
     (case data_load im of
        None \<Rightarrow> ''scroll''
      | Some v \<Rightarrow> if v = [] then ''scroll'' else v)"

text \<open>
  \<^verbatim>\<open>ensureObserver()\<close> leaves \<^verbatim>\<open>io\<close> set; a new instance gets the next number
  and observes nothing.
\<close>

definition ensureObserver :: "state \<Rightarrow> state" where
  "ensureObserver s =
     (case io s of
        Some ob \<Rightarrow> s
      | None \<Rightarrow> s\<lparr>io := Some \<lparr>oid = observers_made s, targets = []\<rparr>,
                   observers_made := Suc (observers_made s)\<rparr>)"

text \<open>
  \<^verbatim>\<open>io.observe(img)\<close> and \<^verbatim>\<open>io.unobserve(img)\<close>, as the platform defines them:
  observing a target that is already observed does nothing. The script calls them on
  an observer that is there: after \<^verbatim>\<open>ensureObserver()\<close>, under \<^verbatim>\<open>if (io)\<close>, or
  from the callback of the live observer.
\<close>

definition observe :: "nat \<Rightarrow> state \<Rightarrow> state" where
  "observe i s =
     (case io s of
        None \<Rightarrow> s
      | Some ob \<Rightarrow>
          s\<lparr>io := Some (ob\<lparr>targets := (if i \<in> set (targets ob) then targets ob
                                          else targets ob @ [i])\<rparr>)\<rparr>)"

definition unobserve :: "nat \<Rightarrow> state \<Rightarrow> state" where
  "unobserve i s =
     (case io s of
        None \<Rightarrow> s
      | Some ob \<Rightarrow> s\<lparr>io := Some (ob\<lparr>targets := removeAll i (targets ob)\<rparr>)\<rparr>)"

text \<open>
  Attaching a reaction to a promise (\<^verbatim>\<open>await\<close>, \<^verbatim>\<open>.catch\<close>,
  \<^verbatim>\<open>Promise.allSettled\<close>): it waits while the promise is pending and runs at once
  when the promise is settled already.
\<close>

definition attach :: "nat \<Rightarrow> reaction \<Rightarrow> state \<Rightarrow> state" where
  "attach p r s =
     (let s1 = s\<lparr>promises := (promises s)[p := (promises s ! p)\<lparr>reaction := r\<rparr>]\<rparr>
      in case pstate (promises s ! p) of
           Pending \<Rightarrow> s1
         | Fulfilled \<Rightarrow> react r Fulfilled s1
         | Rejected e \<Rightarrow> react r (Rejected e) s1)"

record entry =
  target :: nat
  isIntersecting :: bool

text \<open>The body of the observer's \<^verbatim>\<open>entries.forEach\<close>, and the callback.\<close>

definition onEntry :: "entry \<Rightarrow> state \<Rightarrow> state" where
  "onEntry en s =
     (if \<not> isIntersecting en then s
      else if loadMode (images s ! target en) \<noteq> ''scroll'' then s
      else (case loadImage (target en) s of
              (p, s1) \<Rightarrow> unobserve (target en) (attach p Catch_reaction s1)))"

fun observerCallback :: "entry list \<Rightarrow> state \<Rightarrow> state" where
  "observerCallback [] s = s"
| "observerCallback (en # ens) s = observerCallback ens (onEntry en s)"

text \<open>
  The browser delivering intersection entries: only the live observer delivers, and
  only for targets it observes.
\<close>

definition deliver :: "entry list \<Rightarrow> state \<Rightarrow> state" where
  "deliver ens s =
     (case io s of
        None \<Rightarrow> s
      | Some ob \<Rightarrow>
          observerCallback
            (filter (\<lambda>en. target en \<in> set (targets ob) \<and> target en < length (images s)) ens) s)"


text \<open>The click listener of \<^verbatim>\<open>disconnectObserverBtn\<close>.\<close>

definition disconnectObserver :: "state \<Rightarrow> state" where
  "disconnectObserver s =
     (case io s of
        None \<Rightarrow> s
      | Some ob \<Rightarrow> emit Console_log (s\<lparr>io := None\<rparr>))"

section \<open>setupImages and the buttons\<close>

text \<open>
  The \<^verbatim>\<open>async\<close> click listener that \<^verbatim>\<open>setupImages\<close> binds: up to its
  \<^verbatim>\<open>await\<close> it runs at once, the rest is the promise's reaction.
\<close>

definition clickHandler :: "nat \<Rightarrow> state \<Rightarrow> state" where
  "clickHandler i s =
     (case loadImage i (upd_btn i (\<lambda>b. b\<lparr>disabled := True, textContent := Loading_caption\<rparr>) s) of
        (p, s1) \<Rightarrow> attach p (Click_reaction i) s1)"

text \<open>
  The user activating the button of image \<open>i\<close>: a disabled button gets no click;
  otherwise every bound listener runs.
\<close>

definition activate :: "nat \<Rightarrow> state \<Rightarrow> state" where
  "activate i s =
     (case btn (images s ! i) of
        None \<Rightarrow> s
      | Some b \<Rightarrow> if disabled b then s else (clickHandler i ^^ clickHandlers b) s)"

definition setupImage :: "nat \<Rightarrow> state \<Rightarrow> state" where
  "setupImage i s =
     (if loadMode (images s ! i) = ''click''
      then upd_btn i (\<lambda>b. b\<lparr>hidden := False, clickHandlers := Suc (clickHandlers b)\<rparr>) s
      else observe i (ensureObserver (upd_btn i (\<lambda>b. b\<lparr>hidden := True\<rparr>) s)))"

fun forEach :: "(nat \<Rightarrow> state \<Rightarrow> state) \<Rightarrow> nat list \<Rightarrow> state \<Rightarrow> state" where
  "forEach f [] s = s"
| "forEach f (i # is) s = forEach f is (f i s)"

definition setupImages :: "state \<Rightarrow> state" where
  "setupImages s = forEach setupImage [0..<length (images s)] s"

section \<open>toggleMode\<close>

definition toggleImage :: "nat \<Rightarrow> state \<Rightarrow> state" where
  "toggleImage i s =
     (let s1 = upd_img i (\<lambda>im. im\<lparr>data_load := Some (currentMode s)\<rparr>) s
      in if loaded (images s1 ! i) then s1
         else if currentMode s1 = ''scroll''
              then observe i (ensureObserver (upd_btn i (\<lambda>b. b\<lparr>hidden := True\<rparr>) s1))
              else (let s2 = upd_btn i (\<lambda>b. b\<lparr>hidden := False\<rparr>) s1
                    in case io s2 of None \<Rightarrow> s2 | Some ob \<Rightarrow> unobserve i s2))"

definition toggleMode :: "bool \<Rightarrow> state \<Rightarrow> state" where
  "toggleMode isScroll s =
     forEach toggleImage [0..<length (images s)]
       (s\<lparr>currentMode := (if isScroll then ''scroll'' else ''click''),
          modeLabel := (if isScroll then Auto_on_scroll else Po_kliku_on_click)\<rparr>)"

section \<open>loadAll\<close>

text \<open>\<^verbatim>\<open>gallery.querySelectorAll('img.lazy:not(.loaded)')\<close>.\<close>

definition notLoaded :: "state \<Rightarrow> nat list" where
  "notLoaded s = filter (\<lambda>i. \<not> loaded (images s ! i)) [0..<length (images s)]"

text \<open>\<^verbatim>\<open>images.map(loadImage)\<close>: the calls in order, and their promises.\<close>

fun mapLoadImage :: "nat list \<Rightarrow> state \<Rightarrow> nat list \<times> state" where
  "mapLoadImage [] s = ([], s)"
| "mapLoadImage (i # is) s =
     (case loadImage i s of
        (p, s1) \<Rightarrow> (case mapLoadImage is s1 of (ps, s2) \<Rightarrow> (p # ps, s2)))"

text \<open>
  \<^verbatim>\<open>Promise.allSettled\<close> attaches itself to every promise; its own promise, and with
  it the promise of \<^verbatim>\<open>loadAll\<close>, is pending until all of them are settled, then
  fulfilled, and never rejected.
\<close>

definition allSettled :: "pstate list \<Rightarrow> pstate" where
  "allSettled sts = (if list_all (\<lambda>st. st \<noteq> Pending) sts then Fulfilled else Pending)"

definition loadAll :: "state \<Rightarrow> nat list \<times> state" where
  "loadAll s =
     (case mapLoadImage (notLoaded s) s of
        (ps, s1) \<Rightarrow> (ps, forEach (\<lambda>p. attach p AllSettled_reaction) ps s1))"

definition loadAll_promise :: "nat list \<Rightarrow> state \<Rightarrow> pstate" where
  "loadAll_promise ps s = allSettled (map (\<lambda>p. pstate (promises s ! p)) ps)"

section \<open>init and what happens afterwards\<close>

text \<open>
  \<^verbatim>\<open>init()\<close> runs \<^verbatim>\<open>setupImages()\<close> and binds the three controls. Afterwards the
  script only reacts: to the controls, to the buttons, to the observer and to the
  \<^verbatim>\<open>load\<close> and \<^verbatim>\<open>error\<close> events of the images.
\<close>

definition init :: "state \<Rightarrow> state" where
  "init s = setupImages s"

datatype action =
    Change_mode bool
  | Click_loadAll
  | Click_disconnect
  | Click_button nat
  | Intersections "entry list"
  | Load_event nat
  | Error_event nat nat

fun step :: "action \<Rightarrow> state \<Rightarrow> state" where
  "step (Change_mode b) s = toggleMode b s"
| "step Click_loadAll s = snd (loadAll s)"
| "step Click_disconnect s = disconnectObserver s"
| "step (Click_button i) s = (if i < length (images s) then activate i s else s)"
| "step (Intersections ens) s = deliver ens s"
| "step (Load_event i) s = (if i < length (images s) then fireLoad i s else s)"
| "step (Error_event i e) s = (if i < length (images s) then fireError i e s else s)"

fun run :: "action list \<Rightarrow> state \<Rightarrow> state" where
  "run [] s = s"
| "run (a # as) s = run as (step a s)"

section \<open>Derived notions\<close>

text \<open>How often \<^verbatim>\<open>applyDataAttributes\<close> was called on image \<open>i\<close>.\<close>

definition commits :: "nat \<Rightarrow> state \<Rightarrow> nat" where
  "commits i s = count_list (trace s) (Commit i)"

text \<open>
  The script keeps no loading state. An image is loading when a call of
  \<^verbatim>\<open>loadImage\<close> waits on it: listeners of a call are registered on it still.
\<close>

definition loading :: "nat \<Rightarrow> state \<Rightarrow> bool" where
  "loading i s = (load_listeners (images s ! i) \<noteq> [] \<and> error_listeners (images s ! i) \<noteq> [])"

text \<open>An image without its listeners and its button: its classes and attributes.\<close>

definition attributes :: "img \<Rightarrow> img" where
  "attributes im = im\<lparr>load_listeners := [], error_listeners := [], btn := None\<rparr>"

text \<open>The targets of the observer, none when there is no observer.\<close>

definition watch_list :: "state \<Rightarrow> nat list" where
  "watch_list s = (case io s of None \<Rightarrow> [] | Some ob \<Rightarrow> targets ob)"

definition watched :: "nat \<Rightarrow> state \<Rightarrow> bool" where
  "watched i s = (i \<in> set (watch_list s))"

text \<open>The click listeners on the button of image \<open>i\<close>, and whether the button shows.\<close>

definition handlers :: "img \<Rightarrow> nat" where
  "handlers im = (case btn im of None \<Rightarrow> 0 | Some b \<Rightarrow> clickHandlers b)"

definition shown :: "img \<Rightarrow> bool" where
  "shown im = (case btn im of None \<Rightarrow> False | Some b \<Rightarrow> \<not> hidden b)"

text \<open>
  The mode of \<^verbatim>\<open>toggleMode\<close> as the attribute value, and what one round of
  \<^verbatim>\<open>toggleMode\<close> leaves of an image: the attribute says the current mode, and unless
  the image is loaded its button and the observer agree with the mode.
\<close>

definition mode_of :: "bool \<Rightarrow> string" where
  "mode_of isScroll = (if isScroll then ''scroll'' else ''click'')"

definition reconciled :: "nat \<Rightarrow> state \<Rightarrow> bool" where
  "reconciled j s =
     (data_load (images s ! j) = Some (currentMode s) \<and>
      (loaded (images s ! j) \<or>
       (if currentMode s = ''scroll''
        then (case btn (images s ! j) of None \<Rightarrow> True | Some b \<Rightarrow> hidden b) \<and> watched j s
        else (case btn (images s ! j) of None \<Rightarrow> True | Some b \<Rightarrow> \<not> hidden b) \<and> \<not> watched j s)))"

text \<open>
  The \<^verbatim>\<open>load\<close> and \<^verbatim>\<open>error\<close> events among the actions, the image an event is
  dispatched at, and a list of events that brings one event to each of the given images.
\<close>

fun signal_target :: "action \<Rightarrow> nat option" where
  "signal_target (Load_event i) = Some i"
| "signal_target (Error_event i e) = Some i"
| "signal_target a = None"

fun is_error_event :: "action \<Rightarrow> bool" where
  "is_error_event (Error_event i e) = True"
| "is_error_event a = False"

definition one_signal_each :: "nat list \<Rightarrow> action list \<Rightarrow> bool" where
  "one_signal_each js sch =
     (list_all (\<lambda>a. signal_target a \<noteq> None) sch \<and> distinct (map signal_target sch) \<and>
      set (map signal_target sch) = set (map Some js))"

text \<open>
  A listener is a closure of a \<^verbatim>\<open>loadImage\<close> call, so the promise that names it is in
  the store.
\<close>

definition well_formed :: "state \<Rightarrow> bool" where
  "well_formed s =
     list_all (\<lambda>im. list_all (\<lambda>p. p < length (promises s)) (load_listeners im) \<and>
                     list_all (\<lambda>p. p < length (promises s)) (error_listeners im)) (images s)"

text \<open>
  The call of \<^verbatim>\<open>loadImage\<close> with promise \<open>p\<close> on image \<open>i\<close> is awaited: the image is
  not loaded, both listeners of the call are on it and on no other image, and the
  promise is pending.
\<close>

definition awaited :: "state \<Rightarrow> nat \<Rightarrow> nat \<Rightarrow> bool" where
  "awaited t i p =
     (i < length (images t) \<and> \<not> loaded (images t ! i) \<and>
      p \<in> set (load_listeners (images t ! i)) \<and> p \<in> set (error_listeners (images t ! i)) \<and>
      p < length (promises t) \<and> pstate (promises t ! p) = Pending \<and>
      (\<forall>k < length (images t). k \<noteq> i \<longrightarrow>
         p \<notin> set (load_listeners (images t ! k)) \<and> p \<notin> set (error_listeners (images t ! k))))"

text \<open>
  The observers are numbered as they are made: the one there is was made among the
  \<open>observers_made\<close> so far.
\<close>

definition observer_numbered :: "state \<Rightarrow> bool" where
  "observer_numbered s = (case io s of None \<Rightarrow> True | Some ob \<Rightarrow> oid ob < observers_made s)"

text \<open>
  A document before \<^verbatim>\<open>init\<close>: the script has made no observer and no promise, and
  has put no listener on an image or a button.
\<close>

definition fresh_document :: "state \<Rightarrow> bool" where
  "fresh_document s =
     (io s = None \<and> promises s = [] \<and>
      list_all (\<lambda>im. load_listeners im = [] \<and> error_listeners im = [] \<and> handlers im = 0) (images s))"

section \<open>A small gallery\<close>

text \<open>
  Three images for the concrete checks: one left to the observer, one behind its
  button, one that is loaded already.
\<close>

definition plain_button :: button where
  "plain_button = \<lparr>hidden = True, disabled = False, textContent = Markup_caption, clickHandlers = 0\<rparr>"

definition lazy_img :: "string option \<Rightarrow> string \<Rightarrow> img" where
  "lazy_img mode file =
     \<lparr>loaded = False, data_src = Some file, data_srcset = None, data_sizes = None,
      data_load = mode, src = None, srcset = None, sizes = None, picture = None,
      skeleton = Some False, btn = Some plain_button, load_listeners = [], error_listeners = []\<rparr>"

definition gallery :: state where
  "gallery =
     \<lparr>images = [lazy_img None ''a.jpg'', lazy_img (Some ''click'') ''b.jpg'',
                (lazy_img (Some ''scroll'') ''c.jpg'')\<lparr>loaded := True, src := Some ''c.jpg''\<rparr>],
      io = None, currentMode = ''scroll'', modeLabel = Markup_mode, promises = [],
      observers_made = 0, trace = []\<rparr>"

text \<open>
  The first image while its load is in flight, after that load failed, and after a
  second call of \<^verbatim>\<open>loadImage\<close> on it.
\<close>

definition in_flight :: state where
  "in_flight = snd (loadImage 0 gallery)"

definition failed_once :: state where
  "failed_once = fireError 0 7 in_flight"

definition retried :: state where
  "retried = snd (loadImage 0 failed_once)"




section \<open>How the operations change the state\<close>

subsection \<open>Frame lemmas\<close>

lemma images_upd_img_nth:
  "images (upd_img i f s) ! k = (if k = i \<and> i < length (images s) then f (images s ! i) else images s ! k)"
  by (cases "i < length (images s)") (auto simp: upd_img_def nth_list_update list_update_beyond)

lemma length_images_upd_img [simp]: "length (images (upd_img i f s)) = length (images s)"
  by (simp add: upd_img_def)

lemma other_upd_img [simp]:
  "io (upd_img i f s) = io s" "currentMode (upd_img i f s) = currentMode s"
  "modeLabel (upd_img i f s) = modeLabel s" "promises (upd_img i f s) = promises s"
  "observers_made (upd_img i f s) = observers_made s" "trace (upd_img i f s) = trace s"
  by (simp_all add: upd_img_def)

lemma images_upd_btn_nth:
  "images (upd_btn i f s) ! k =
     (images s ! k)\<lparr>btn := (if k = i \<and> i < length (images s) then map_option f (btn (images s ! k))
                             else btn (images s ! k))\<rparr>"
  by (simp add: upd_btn_def images_upd_img_nth)

lemma length_images_upd_btn [simp]: "length (images (upd_btn i f s)) = length (images s)"
  by (simp add: upd_btn_def)

lemma other_upd_btn [simp]:
  "io (upd_btn i f s) = io s" "currentMode (upd_btn i f s) = currentMode s"
  "modeLabel (upd_btn i f s) = modeLabel s" "promises (upd_btn i f s) = promises s"
  "observers_made (upd_btn i f s) = observers_made s" "trace (upd_btn i f s) = trace s"
  by (simp_all add: upd_btn_def)

lemma other_emit [simp]:
  "io (emit e s) = io s" "currentMode (emit e s) = currentMode s"
  "modeLabel (emit e s) = modeLabel s" "promises (emit e s) = promises s"
  "observers_made (emit e s) = observers_made s" "images (emit e s) = images s"
  "trace (emit e s) = trace s @ [e]"
  by (simp_all add: emit_def)

lemma applyDataAttributes_eq:
  "applyDataAttributes im =
     im\<lparr>picture := map_option (map apply_source) (picture im),
        src := (if truthy (data_src im) then data_src im else src im),
        srcset := (if truthy (data_srcset im) then data_srcset im else srcset im),
        sizes := (if truthy (data_sizes im) then data_sizes im else sizes im)\<rparr>"
  by (cases "picture im") (simp_all add: applyDataAttributes_def Let_def)

lemma other_react [simp]:
  "io (react r st s) = io s" "currentMode (react r st s) = currentMode s"
  "modeLabel (react r st s) = modeLabel s" "promises (react r st s) = promises s"
  "observers_made (react r st s) = observers_made s" "trace (react r st s) = trace s"
  "length (images (react r st s)) = length (images s)"
  by (simp_all add: react_def split: reaction.split pstate.split)

lemma react_nth:
  "\<exists>b. images (react r st s) ! k = (images s ! k)\<lparr>btn := b\<rparr>"
proof (cases r)
  case (Click_reaction i)
  then show ?thesis
    by (cases st) (auto simp: react_def images_upd_btn_nth intro: exI [of _ "btn (images s ! k)"])
qed (auto simp: react_def intro: exI [of _ "btn (images s ! k)"])

lemma react_fields [simp]:
  "loaded (images (react r st s) ! k) = loaded (images s ! k)"
  "load_listeners (images (react r st s) ! k) = load_listeners (images s ! k)"
  "error_listeners (images (react r st s) ! k) = error_listeners (images s ! k)"
  "data_load (images (react r st s) ! k) = data_load (images s ! k)"
  using react_nth [of r st s k] by auto

lemma other_settle [simp]:
  "io (settle p st s) = io s" "currentMode (settle p st s) = currentMode s"
  "modeLabel (settle p st s) = modeLabel s" 
  "observers_made (settle p st s) = observers_made s" "trace (settle p st s) = trace s"
  "length (images (settle p st s)) = length (images s)"
  "length (promises (settle p st s)) = length (promises s)"
  by (simp_all add: settle_def)

lemma settle_nth:
  "\<exists>b. images (settle p st s) ! k = (images s ! k)\<lparr>btn := b\<rparr>"
proof (cases "p < length (promises s) \<and> pstate (promises s ! p) = Pending")
  case True
  then show ?thesis
    using react_nth [of "reaction (promises s ! p)" st
        "s\<lparr>promises := (promises s)[p := (promises s ! p)\<lparr>pstate := st\<rparr>]\<rparr>" k]
    by (simp add: settle_def)
next
  case False
  then show ?thesis
    by (auto simp: settle_def intro: exI [of _ "btn (images s ! k)"])
qed

lemma settle_fields [simp]:
  "loaded (images (settle p st s) ! k) = loaded (images s ! k)"
  "load_listeners (images (settle p st s) ! k) = load_listeners (images s ! k)"
  "error_listeners (images (settle p st s) ! k) = error_listeners (images s ! k)"
  "data_load (images (settle p st s) ! k) = data_load (images s ! k)"
  using settle_nth [of p st s k] by auto

lemma promises_settle:
  "promises (settle p st s) =
     (if p < length (promises s) \<and> pstate (promises s ! p) = Pending
      then (promises s)[p := (promises s ! p)\<lparr>pstate := st\<rparr>] else promises s)"
  by (simp add: settle_def)


subsection \<open>loadImage, cleanup, onLoad, onError\<close>

lemma other_new_promise [simp]:
  "io (new_promise s) = io s" "currentMode (new_promise s) = currentMode s"
  "modeLabel (new_promise s) = modeLabel s" "images (new_promise s) = images s"
  "observers_made (new_promise s) = observers_made s" "trace (new_promise s) = trace s"
  "promises (new_promise s) = promises s @ [\<lparr>pstate = Pending, reaction = No_reaction\<rparr>]"
  by (simp_all add: new_promise_def)

lemma loadImage_not_loaded:
  assumes "\<not> loaded (images s ! i)"
  shows "loadImage i s =
           (length (promises s),
            commit i (addErrorListener i (length (promises s))
              (addLoadListener i (length (promises s)) (new_promise s))))"
  using assms by (simp add: loadImage_def Let_def)

lemma fst_loadImage [simp]: "fst (loadImage i s) = length (promises s)"
  by (simp add: loadImage_def Let_def)

lemma other_loadImage [simp]:
  "io (snd (loadImage i s)) = io s" "currentMode (snd (loadImage i s)) = currentMode s"
  "modeLabel (snd (loadImage i s)) = modeLabel s"
  "observers_made (snd (loadImage i s)) = observers_made s"
  "length (images (snd (loadImage i s))) = length (images s)"
  "length (promises (snd (loadImage i s))) = Suc (length (promises s))"
  by (simp_all add: loadImage_def Let_def commit_def addErrorListener_def addLoadListener_def)

lemma trace_loadImage:
  "trace (snd (loadImage i s)) =
     (if loaded (images s ! i) then trace s
      else trace s @ [Listen_load i (length (promises s)), Listen_error i (length (promises s)), Commit i])"
  by (simp add: loadImage_def Let_def commit_def addErrorListener_def addLoadListener_def)

lemma images_loadImage_nth:
  "images (snd (loadImage i s)) ! k =
     (if k = i \<and> i < length (images s) \<and> \<not> loaded (images s ! i)
      then applyDataAttributes
             ((images s ! i)\<lparr>load_listeners := load_listeners (images s ! i) @ [length (promises s)],
                              error_listeners := error_listeners (images s ! i) @ [length (promises s)]\<rparr>)
      else images s ! k)"
proof (cases "loaded (images s ! i)")
  case True
  then show ?thesis
    using settle_nth [of "length (promises s)" Fulfilled "new_promise s" k]
    by (simp add: loadImage_def Let_def settle_def react_def)
next
  case False
  then show ?thesis
    by (simp add: loadImage_def Let_def commit_def addErrorListener_def addLoadListener_def
        images_upd_img_nth)
qed

lemma promises_loadImage:
  "promises (snd (loadImage i s)) =
     promises s @ [\<lparr>pstate = (if loaded (images s ! i) then Fulfilled else Pending),
                     reaction = No_reaction\<rparr>]"
  by (simp add: loadImage_def Let_def commit_def addErrorListener_def addLoadListener_def
      settle_def react_def)

lemma other_cleanup [simp]:
  "io (cleanup i p s) = io s" "currentMode (cleanup i p s) = currentMode s"
  "modeLabel (cleanup i p s) = modeLabel s" "promises (cleanup i p s) = promises s"
  "observers_made (cleanup i p s) = observers_made s"
  "trace (cleanup i p s) = trace s @ [Cleanup i p]"
  "length (images (cleanup i p s)) = length (images s)"
  by (simp_all add: cleanup_def)

lemma images_cleanup_nth:
  "images (cleanup i p s) ! k =
     (if k = i \<and> i < length (images s)
      then (images s ! i)\<lparr>load_listeners := removeAll p (load_listeners (images s ! i)),
                           error_listeners := removeAll p (error_listeners (images s ! i))\<rparr>
      else images s ! k)"
  by (simp add: cleanup_def images_upd_img_nth)

lemma other_onLoad [simp]:
  "io (onLoad i p s) = io s" "currentMode (onLoad i p s) = currentMode s"
  "modeLabel (onLoad i p s) = modeLabel s"
  "observers_made (onLoad i p s) = observers_made s"
  "trace (onLoad i p s) = trace s @ [Cleanup i p]"
  "length (images (onLoad i p s)) = length (images s)"
  "length (promises (onLoad i p s)) = length (promises s)"
  by (simp_all add: onLoad_def)

lemma onLoad_fields:
  "loaded (images (onLoad i p s) ! k) = ((k = i \<and> i < length (images s)) \<or> loaded (images s ! k))"
  "load_listeners (images (onLoad i p s) ! k) =
     (if k = i \<and> i < length (images s) then removeAll p (load_listeners (images s ! k))
      else load_listeners (images s ! k))"
  "error_listeners (images (onLoad i p s) ! k) =
     (if k = i \<and> i < length (images s) then removeAll p (error_listeners (images s ! k))
      else error_listeners (images s ! k))"
  "data_load (images (onLoad i p s) ! k) = data_load (images s ! k)"
  by (auto simp: onLoad_def images_cleanup_nth images_upd_img_nth)

lemma promises_onLoad:
  "promises (onLoad i p s) =
     (if p < length (promises s) \<and> pstate (promises s ! p) = Pending
      then (promises s)[p := (promises s ! p)\<lparr>pstate := Fulfilled\<rparr>] else promises s)"
  by (simp add: onLoad_def promises_settle)

lemma other_onError [simp]:
  "io (onError i p e s) = io s" "currentMode (onError i p e s) = currentMode s"
  "modeLabel (onError i p e s) = modeLabel s"
  "observers_made (onError i p e s) = observers_made s"
  "trace (onError i p e s) = trace s @ [Console_warn e, Cleanup i p]"
  "length (images (onError i p e s)) = length (images s)"
  "length (promises (onError i p e s)) = length (promises s)"
  by (simp_all add: onError_def)

lemma onError_fields:
  "loaded (images (onError i p e s) ! k) = loaded (images s ! k)"
  "load_listeners (images (onError i p e s) ! k) =
     (if k = i \<and> i < length (images s) then removeAll p (load_listeners (images s ! k))
      else load_listeners (images s ! k))"
  "error_listeners (images (onError i p e s) ! k) =
     (if k = i \<and> i < length (images s) then removeAll p (error_listeners (images s ! k))
      else error_listeners (images s ! k))"
  "data_load (images (onError i p e s) ! k) = data_load (images s ! k)"
  by (simp_all add: onError_def images_cleanup_nth)

lemma promises_onError:
  "promises (onError i p e s) =
     (if p < length (promises s) \<and> pstate (promises s ! p) = Pending
      then (promises s)[p := (promises s ! p)\<lparr>pstate := Rejected e\<rparr>] else promises s)"
  by (simp add: onError_def promises_settle)


subsection \<open>Dispatching load and error\<close>

lemma other_dispatchLoad [simp]:
  "io (dispatchLoad i ps s) = io s \<and> currentMode (dispatchLoad i ps s) = currentMode s \<and>
   modeLabel (dispatchLoad i ps s) = modeLabel s \<and>
   observers_made (dispatchLoad i ps s) = observers_made s \<and>
   length (images (dispatchLoad i ps s)) = length (images s) \<and>
   length (promises (dispatchLoad i ps s)) = length (promises s)"
  by (induction ps arbitrary: s) simp_all

lemma other_dispatchError [simp]:
  "io (dispatchError i e ps s) = io s \<and> currentMode (dispatchError i e ps s) = currentMode s \<and>
   modeLabel (dispatchError i e ps s) = modeLabel s \<and>
   observers_made (dispatchError i e ps s) = observers_made s \<and>
   length (images (dispatchError i e ps s)) = length (images s) \<and>
   length (promises (dispatchError i e ps s)) = length (promises s)"
  by (induction ps arbitrary: s) simp_all

lemma loaded_dispatchLoad:
  "loaded (images (dispatchLoad i ps s) ! k) =
     (loaded (images s ! k) \<or>
      (k = i \<and> i < length (images s) \<and> set ps \<inter> set (load_listeners (images s ! i)) \<noteq> {}))"
proof (induction ps arbitrary: s)
  case Nil
  show ?case by simp
next
  case (Cons q ps)
  show ?case
    by (auto simp: Cons.IH onLoad_fields images_upd_img_nth)
qed

lemma loaded_dispatchError:
  "loaded (images (dispatchError i e ps s) ! k) = loaded (images s ! k)"
  by (induction ps arbitrary: s) (simp_all add: onError_fields images_upd_img_nth)

lemma filter_removeAll_step:
  "filter (\<lambda>p. p \<notin> set ps) (removeAll q xs) = filter (\<lambda>p. p \<notin> set (q # ps)) xs"
  by (induction xs) auto

lemma filter_absent_step:
  "q \<notin> set xs \<Longrightarrow> filter (\<lambda>p. p \<notin> set (q # ps)) xs = filter (\<lambda>p. p \<notin> set ps) xs"
  by (induction xs) auto

lemma load_listeners_dispatchLoad:
  "load_listeners (images (dispatchLoad i ps s) ! k) =
     (if k = i \<and> i < length (images s)
      then filter (\<lambda>p. p \<notin> set ps) (load_listeners (images s ! i))
      else load_listeners (images s ! k))"
proof (induction ps arbitrary: s)
  case Nil
  show ?case by simp
next
  case (Cons q ps)
  show ?case
  proof (cases "q \<in> set (load_listeners (images s ! i))")
    case True
    then show ?thesis
      by (auto simp: Cons.IH onLoad_fields images_upd_img_nth filter_removeAll_step
          simp del: set_simps)
  next
    case False
    then show ?thesis
      by (auto simp: Cons.IH filter_absent_step simp del: set_simps)
  qed
qed


lemma filter_both_removeAll_step:
  "q \<in> set L \<Longrightarrow>
   filter (\<lambda>p. \<not> (p \<in> set ps \<and> p \<in> set (removeAll q L))) (removeAll q E) =
   filter (\<lambda>p. \<not> (p \<in> set (q # ps) \<and> p \<in> set L)) E"
  by (induction E) auto

lemma filter_both_absent_step:
  "q \<notin> set L \<Longrightarrow>
   filter (\<lambda>p. \<not> (p \<in> set (q # ps) \<and> p \<in> set L)) E =
   filter (\<lambda>p. \<not> (p \<in> set ps \<and> p \<in> set L)) E"
  by (induction E) auto

lemma error_listeners_dispatchLoad:
  "error_listeners (images (dispatchLoad i ps s) ! k) =
     (if k = i \<and> i < length (images s)
      then filter (\<lambda>p. \<not> (p \<in> set ps \<and> p \<in> set (load_listeners (images s ! i))))
             (error_listeners (images s ! i))
      else error_listeners (images s ! k))"
proof (induction ps arbitrary: s)
  case Nil
  show ?case by simp
next
  case (Cons q ps)
  show ?case
  proof (cases "q \<in> set (load_listeners (images s ! i))")
    case True
    define s' where "s' = onLoad i q (upd_img i (\<lambda>im. im\<lparr>load_listeners := removeAll q (load_listeners im)\<rparr>) s)"
    have step: "dispatchLoad i (q # ps) s = dispatchLoad i ps s'"
      using True by (simp add: s'_def)
    have len: "length (images s') = length (images s)"
      by (simp add: s'_def)
    show ?thesis
    proof (cases "k = i \<and> i < length (images s)")
      case inside: True
      then have mine: "load_listeners (images s' ! i) = removeAll q (load_listeners (images s ! i))"
        and other: "error_listeners (images s' ! i) = removeAll q (error_listeners (images s ! i))"
        by (simp_all add: s'_def onLoad_fields images_upd_img_nth)
      show ?thesis
        unfolding step Cons.IH len mine other
        using inside True filter_both_removeAll_step [of q "load_listeners (images s ! i)" ps "error_listeners (images s ! i)"]
        by (simp only: simp_thms if_True)
    next
      case outside: False
      then have "error_listeners (images s' ! k) = error_listeners (images s ! k)"
        by (auto simp: s'_def onLoad_fields images_upd_img_nth)
      with outside show ?thesis
        unfolding step Cons.IH len by (simp only: simp_thms if_False)
    qed
  next
    case False
    then have step: "dispatchLoad i (q # ps) s = dispatchLoad i ps s"
      by simp
    show ?thesis
      unfolding step Cons.IH
      using filter_both_absent_step [OF False, of ps "error_listeners (images s ! i)"]
      by (simp only:)
  qed
qed

lemma error_listeners_dispatchError:
  "error_listeners (images (dispatchError i e ps s) ! k) =
     (if k = i \<and> i < length (images s)
      then filter (\<lambda>p. p \<notin> set ps) (error_listeners (images s ! i))
      else error_listeners (images s ! k))"
proof (induction ps arbitrary: s)
  case Nil
  show ?case by simp
next
  case (Cons q ps)
  show ?case
  proof (cases "q \<in> set (error_listeners (images s ! i))")
    case True
    then show ?thesis
      by (auto simp: Cons.IH onError_fields images_upd_img_nth filter_removeAll_step
          simp del: set_simps)
  next
    case False
    then show ?thesis
      by (auto simp: Cons.IH filter_absent_step simp del: set_simps)
  qed
qed

lemma load_listeners_dispatchError:
  "load_listeners (images (dispatchError i e ps s) ! k) =
     (if k = i \<and> i < length (images s)
      then filter (\<lambda>p. \<not> (p \<in> set ps \<and> p \<in> set (error_listeners (images s ! i))))
             (load_listeners (images s ! i))
      else load_listeners (images s ! k))"
proof (induction ps arbitrary: s)
  case Nil
  show ?case by simp
next
  case (Cons q ps)
  show ?case
  proof (cases "q \<in> set (error_listeners (images s ! i))")
    case True
    define s' where "s' = onError i q e (upd_img i (\<lambda>im. im\<lparr>error_listeners := removeAll q (error_listeners im)\<rparr>) s)"
    have step: "dispatchError i e (q # ps) s = dispatchError i e ps s'"
      using True by (simp add: s'_def)
    have len: "length (images s') = length (images s)"
      by (simp add: s'_def)
    show ?thesis
    proof (cases "k = i \<and> i < length (images s)")
      case inside: True
      then have mine: "error_listeners (images s' ! i) = removeAll q (error_listeners (images s ! i))"
        and other: "load_listeners (images s' ! i) = removeAll q (load_listeners (images s ! i))"
        by (simp_all add: s'_def onError_fields images_upd_img_nth)
      show ?thesis
        unfolding step Cons.IH len mine other
        using inside True filter_both_removeAll_step [of q "error_listeners (images s ! i)" ps "load_listeners (images s ! i)"]
        by (simp only: simp_thms if_True)
    next
      case outside: False
      then have "load_listeners (images s' ! k) = load_listeners (images s ! k)"
        by (auto simp: s'_def onError_fields images_upd_img_nth)
      with outside show ?thesis
        unfolding step Cons.IH len by (simp only: simp_thms if_False)
    qed
  next
    case False
    then have step: "dispatchError i e (q # ps) s = dispatchError i e ps s"
      by simp
    show ?thesis
      unfolding step Cons.IH
      using filter_both_absent_step [OF False, of ps "load_listeners (images s ! i)"]
      by (simp only:)
  qed
qed

lemma cleanups_dispatchLoad:
  "i < length (images s) \<Longrightarrow>
   count_list (trace (dispatchLoad i ps s)) (Cleanup j p) =
     count_list (trace s) (Cleanup j p) +
     (if j = i \<and> p \<in> set ps \<and> p \<in> set (load_listeners (images s ! i)) then 1 else 0)"
proof (induction ps arbitrary: s)
  case Nil
  show ?case by simp
next
  case (Cons q ps)
  show ?case
  proof (cases "q \<in> set (load_listeners (images s ! i))")
    case True
    with Cons.prems show ?thesis
      by (auto simp: Cons.IH onLoad_fields images_upd_img_nth)
  next
    case False
    with Cons.prems show ?thesis
      by (auto simp: Cons.IH)
  qed
qed

lemma cleanups_dispatchError:
  "i < length (images s) \<Longrightarrow>
   count_list (trace (dispatchError i e ps s)) (Cleanup j p) =
     count_list (trace s) (Cleanup j p) +
     (if j = i \<and> p \<in> set ps \<and> p \<in> set (error_listeners (images s ! i)) then 1 else 0)"
proof (induction ps arbitrary: s)
  case Nil
  show ?case by simp
next
  case (Cons q ps)
  show ?case
  proof (cases "q \<in> set (error_listeners (images s ! i))")
    case True
    with Cons.prems show ?thesis
      by (auto simp: Cons.IH onError_fields images_upd_img_nth)
  next
    case False
    with Cons.prems show ?thesis
      by (auto simp: Cons.IH)
  qed
qed

lemma others_dispatchLoad:
  "\<forall>j p. ev \<noteq> Cleanup j p \<Longrightarrow>
   count_list (trace (dispatchLoad i ps s)) ev = count_list (trace s) ev"
  by (induction ps arbitrary: s) auto

lemma others_dispatchError:
  "\<forall>j p. ev \<noteq> Cleanup j p \<Longrightarrow> ev \<noteq> Console_warn e \<Longrightarrow>
   count_list (trace (dispatchError i e ps s)) ev = count_list (trace s) ev"
  by (induction ps arbitrary: s) auto

subsection \<open>What a dispatch does to the promises\<close>

lemma promises_dispatchLoad:
  "i < length (images s) \<Longrightarrow>
   promises (dispatchLoad i ps s) ! q =
     (if q \<in> set ps \<and> q \<in> set (load_listeners (images s ! i)) \<and> q < length (promises s) \<and>
         pstate (promises s ! q) = Pending
      then (promises s ! q)\<lparr>pstate := Fulfilled\<rparr> else promises s ! q)"
proof (induction ps arbitrary: s)
  case Nil
  show ?case by simp
next
  case (Cons r ps)
  show ?case
  proof (cases "r \<in> set (load_listeners (images s ! i))")
    case True
    with Cons.prems show ?thesis
      by (auto simp: Cons.IH onLoad_fields images_upd_img_nth promises_onLoad nth_list_update)
  next
    case False
    with Cons.prems show ?thesis
      by (auto simp: Cons.IH)
  qed
qed

lemma promises_dispatchError:
  "i < length (images s) \<Longrightarrow>
   promises (dispatchError i e ps s) ! q =
     (if q \<in> set ps \<and> q \<in> set (error_listeners (images s ! i)) \<and> q < length (promises s) \<and>
         pstate (promises s ! q) = Pending
      then (promises s ! q)\<lparr>pstate := Rejected e\<rparr> else promises s ! q)"
proof (induction ps arbitrary: s)
  case Nil
  show ?case by simp
next
  case (Cons r ps)
  show ?case
  proof (cases "r \<in> set (error_listeners (images s ! i))")
    case True
    with Cons.prems show ?thesis
      by (auto simp: Cons.IH onError_fields images_upd_img_nth promises_onError nth_list_update)
  next
    case False
    with Cons.prems show ?thesis
      by (auto simp: Cons.IH)
  qed
qed

subsection \<open>Classes and attributes\<close>

lemma map_upd_img_same:
  "h (f (images s ! i)) = h (images s ! i) \<Longrightarrow> map h (images (upd_img i f s)) = map h (images s)"
  by (cases "i < length (images s)")
    (auto simp: upd_img_def list_eq_iff_nth_eq nth_list_update list_update_beyond)

lemma loadImage_fields:
  "loaded (images (snd (loadImage i s)) ! k) = loaded (images s ! k)"
  "data_load (images (snd (loadImage i s)) ! k) = data_load (images s ! k)"
  "btn (images (snd (loadImage i s)) ! k) = btn (images s ! k)"
  "load_listeners (images (snd (loadImage i s)) ! k) =
     (if k = i \<and> i < length (images s) \<and> \<not> loaded (images s ! i)
      then load_listeners (images s ! i) @ [length (promises s)]
      else load_listeners (images s ! k))"
  "error_listeners (images (snd (loadImage i s)) ! k) =
     (if k = i \<and> i < length (images s) \<and> \<not> loaded (images s ! i)
      then error_listeners (images s ! i) @ [length (promises s)]
      else error_listeners (images s ! k))"
  by (auto simp: images_loadImage_nth applyDataAttributes_eq)

lemma commits_loadImage:
  "commits k (snd (loadImage i s)) =
     (if k = i \<and> \<not> loaded (images s ! i) then Suc (commits k s) else commits k s)"
  by (simp add: commits_def trace_loadImage)

lemma attributes_nth_react:
  "attributes (images (react r st s) ! k) = attributes (images s ! k)"
  using react_nth [of r st s k] by (auto simp: attributes_def)

lemma attributes_nth_settle:
  "attributes (images (settle p st s) ! k) = attributes (images s ! k)"
  using settle_nth [of p st s k] by (auto simp: attributes_def)

lemma attributes_nth_onError:
  "attributes (images (onError i p e s) ! k) = attributes (images s ! k)"
  by (simp add: onError_def attributes_nth_settle images_cleanup_nth) (simp add: attributes_def)

lemma attributes_nth_dispatchError:
  "attributes (images (dispatchError i e ps s) ! k) = attributes (images s ! k)"
proof (induction ps arbitrary: s)
  case Nil
  show ?case by simp
next
  case (Cons q ps)
  have "attributes (images (upd_img i (\<lambda>im. im\<lparr>error_listeners := removeAll q (error_listeners im)\<rparr>) s) ! k)
          = attributes (images s ! k)"
    by (simp add: images_upd_img_nth) (simp add: attributes_def)
  then show ?case
    by (simp add: Cons.IH attributes_nth_onError)
qed

lemma attributes_fireError:
  "map attributes (images (fireError i e s)) = map attributes (images s)"
  by (simp add: fireError_def list_eq_iff_nth_eq attributes_nth_dispatchError)

section \<open>loadImage on a loaded image\<close>

text \<open>
  C6. On an image that has the class \<^verbatim>\<open>loaded\<close>, \<^verbatim>\<open>loadImage\<close> returns a promise
  that is already fulfilled and does nothing else: the images (attributes and listener
  lists), the observer, the mode and the trace (no listener registered, no commit) are
  as before; the only change is the new, fulfilled promise in the store.
\<close>

theorem loadImage_loaded_idempotent:
  assumes "loaded (images s ! i)"
  shows "loadImage i s =
           (length (promises s),
            s\<lparr>promises := promises s @ [\<lparr>pstate = Fulfilled, reaction = No_reaction\<rparr>]\<rparr>)"
  using assms
  by (simp add: loadImage_def Let_def new_promise_def settle_def react_def)

theorem loadImage_loaded_idempotent_witness:
  "loaded (images gallery ! 2) \<and>
   loadImage 2 gallery =
     (0, gallery\<lparr>promises := [\<lparr>pstate = Fulfilled, reaction = No_reaction\<rparr>]\<rparr>)"
proof -
  have h: "loaded (images gallery ! 2)"
    by (simp add: gallery_def lazy_img_def)
  have "promises gallery = []"
    by (simp add: gallery_def)
  with h loadImage_loaded_idempotent [OF h] show ?thesis
    by simp
qed

section \<open>loadImage while a load is in flight\<close>

text \<open>
  C1, as the claim states it, fails: \<^verbatim>\<open>loadImage\<close> only asks whether the image has
  the class \<^verbatim>\<open>loaded\<close>. On the first image of the gallery, with one load in flight
  (listeners registered, promise pending, one commit so far), a second call commits
  again and registers a second pair of listeners.
\<close>

theorem loadImage_in_flight_counterexample:
  "loading 0 in_flight \<and> \<not> loaded (images in_flight ! 0) \<and>
   pstate (promises in_flight ! 0) = Pending \<and> commits 0 in_flight = 1 \<and>
   commits 0 (snd (loadImage 0 in_flight)) = 2 \<and>
   load_listeners (images (snd (loadImage 0 in_flight)) ! 0) = [0, 1] \<and>
   error_listeners (images (snd (loadImage 0 in_flight)) ! 0) = [0, 1]"
  by code_simp

text \<open>
  C1, amended. On an image that is not loaded, every call of \<^verbatim>\<open>loadImage\<close> commits
  and registers a pair of listeners of its own, also while an earlier call is in
  flight: after the first call the image is loading, and after the second there are
  two more commits and two more pairs of listeners than before the first.
\<close>

theorem loadImage_again_commits_again:
  assumes "i < length (images s)" and "\<not> loaded (images s ! i)"
  shows "loading i (snd (loadImage i s)) \<and>
         commits i (snd (loadImage i (snd (loadImage i s)))) = commits i s + 2 \<and>
         load_listeners (images (snd (loadImage i (snd (loadImage i s)))) ! i) =
           load_listeners (images s ! i) @ [length (promises s), Suc (length (promises s))] \<and>
         error_listeners (images (snd (loadImage i (snd (loadImage i s)))) ! i) =
           error_listeners (images s ! i) @ [length (promises s), Suc (length (promises s))]"
  using assms by (simp add: loading_def loadImage_fields commits_loadImage)

theorem loadImage_again_commits_again_witness:
  "0 < length (images gallery) \<and> \<not> loaded (images gallery ! 0) \<and>
   loading 0 (snd (loadImage 0 gallery)) \<and>
   commits 0 (snd (loadImage 0 (snd (loadImage 0 gallery)))) = commits 0 gallery + 2 \<and>
   load_listeners (images (snd (loadImage 0 (snd (loadImage 0 gallery)))) ! 0) =
     load_listeners (images gallery ! 0) @ [length (promises gallery), Suc (length (promises gallery))] \<and>
   error_listeners (images (snd (loadImage 0 (snd (loadImage 0 gallery)))) ! 0) =
     error_listeners (images gallery ! 0) @ [length (promises gallery), Suc (length (promises gallery))]"
proof -
  have h1: "0 < length (images gallery)" and h2: "\<not> loaded (images gallery ! 0)"
    by code_simp+
  from loadImage_again_commits_again [OF h1 h2] h1 h2 show ?thesis
    by blast
qed

section \<open>Listeners before the commit, and their teardown\<close>

text \<open>
  C5. A call of \<^verbatim>\<open>loadImage\<close> on an image that is not loaded registers the
  \<^verbatim>\<open>load\<close> listener, then the \<^verbatim>\<open>error\<close> listener, and only then commits the
  attributes; after the call both listeners are on the image. Whichever event fires
  while the listeners of a call are registered, both are gone afterwards and
  \<^verbatim>\<open>cleanup\<close> of that call has run exactly once.
\<close>

theorem listeners_before_commit_and_teardown:
  assumes "i < length (images s)" and "\<not> loaded (images s ! i)"
  shows "trace (snd (loadImage i s)) =
           trace s @ [Listen_load i (length (promises s)), Listen_error i (length (promises s)), Commit i] \<and>
         length (promises s) \<in> set (load_listeners (images (snd (loadImage i s)) ! i)) \<and>
         length (promises s) \<in> set (error_listeners (images (snd (loadImage i s)) ! i)) \<and>
         (\<forall>t p. i < length (images t) \<and> p \<in> set (load_listeners (images t ! i)) \<longrightarrow>
            p \<notin> set (load_listeners (images (fireLoad i t) ! i)) \<and>
            p \<notin> set (error_listeners (images (fireLoad i t) ! i)) \<and>
            count_list (trace (fireLoad i t)) (Cleanup i p) = Suc (count_list (trace t) (Cleanup i p))) \<and>
         (\<forall>t p e. i < length (images t) \<and> p \<in> set (error_listeners (images t ! i)) \<longrightarrow>
            p \<notin> set (load_listeners (images (fireError i e t) ! i)) \<and>
            p \<notin> set (error_listeners (images (fireError i e t) ! i)) \<and>
            count_list (trace (fireError i e t)) (Cleanup i p) = Suc (count_list (trace t) (Cleanup i p)))"
proof -
  have order: "trace (snd (loadImage i s)) =
      trace s @ [Listen_load i (length (promises s)), Listen_error i (length (promises s)), Commit i]"
    using assms by (simp add: trace_loadImage)
  have registered: "length (promises s) \<in> set (load_listeners (images (snd (loadImage i s)) ! i))"
    "length (promises s) \<in> set (error_listeners (images (snd (loadImage i s)) ! i))"
    using assms by (simp_all add: loadImage_fields)
  have on_load: "p \<notin> set (load_listeners (images (fireLoad i t) ! i)) \<and>
      p \<notin> set (error_listeners (images (fireLoad i t) ! i)) \<and>
      count_list (trace (fireLoad i t)) (Cleanup i p) = Suc (count_list (trace t) (Cleanup i p))"
    if "i < length (images t)" and "p \<in> set (load_listeners (images t ! i))" for t p
    using that
    by (simp add: fireLoad_def load_listeners_dispatchLoad error_listeners_dispatchLoad
        cleanups_dispatchLoad)
  have on_error: "p \<notin> set (load_listeners (images (fireError i e t) ! i)) \<and>
      p \<notin> set (error_listeners (images (fireError i e t) ! i)) \<and>
      count_list (trace (fireError i e t)) (Cleanup i p) = Suc (count_list (trace t) (Cleanup i p))"
    if "i < length (images t)" and "p \<in> set (error_listeners (images t ! i))" for t p e
    using that
    by (simp add: fireError_def load_listeners_dispatchError error_listeners_dispatchError
        cleanups_dispatchError)
  from order registered on_load on_error show ?thesis
    by blast
qed

theorem listeners_before_commit_and_teardown_witness:
  "0 < length (images gallery) \<and> \<not> loaded (images gallery ! 0) \<and>
   trace in_flight = [Listen_load 0 0, Listen_error 0 0, Commit 0] \<and>
   0 \<in> set (load_listeners (images in_flight ! 0)) \<and>
   0 \<in> set (error_listeners (images in_flight ! 0)) \<and>
   0 \<notin> set (load_listeners (images (fireLoad 0 in_flight) ! 0)) \<and>
   0 \<notin> set (error_listeners (images (fireLoad 0 in_flight) ! 0)) \<and>
   count_list (trace (fireLoad 0 in_flight)) (Cleanup 0 0) = Suc (count_list (trace in_flight) (Cleanup 0 0)) \<and>
   0 \<notin> set (load_listeners (images (fireError 0 7 in_flight) ! 0)) \<and>
   0 \<notin> set (error_listeners (images (fireError 0 7 in_flight) ! 0)) \<and>
   count_list (trace (fireError 0 7 in_flight)) (Cleanup 0 0) = Suc (count_list (trace in_flight) (Cleanup 0 0))"
proof -
  have h1: "0 < length (images gallery)" and h2: "\<not> loaded (images gallery ! 0)"
    by code_simp+
  have h3: "0 < length (images in_flight)" and h4: "length (promises gallery) = 0"
    and h5: "trace gallery = []"
    by code_simp+
  from listeners_before_commit_and_teardown [OF h1 h2] h1 h2 h3 show ?thesis
    unfolding in_flight_def [symmetric] h4 h5 append_Nil by blast
qed

section \<open>A failed load\<close>

text \<open>
  C2, as the claim states it, fails: the script records no failure on the image and a
  failed load is not final. After the load of the first image failed, the image is
  what the commit made of it and nothing more; a second \<^verbatim>\<open>loadImage\<close> commits again,
  and when \<^verbatim>\<open>load\<close> fires then, the image is loaded and the second promise fulfilled.
\<close>

theorem failed_load_counterexample:
  "pstate (promises failed_once ! 0) = Rejected 7 \<and>
   images failed_once ! 0 = applyDataAttributes (images gallery ! 0) \<and>
   commits 0 failed_once = 1 \<and> commits 0 retried = 2 \<and>
   loaded (images (fireLoad 0 retried) ! 0) \<and>
   pstate (promises (fireLoad 0 retried) ! 1) = Fulfilled"
  by code_simp

text \<open>
  C2, amended. When \<^verbatim>\<open>error\<close> fires while the listeners of a call are registered and
  its promise is pending, the promise is rejected with the error event, both listeners
  of the call are removed with one \<^verbatim>\<open>cleanup\<close>, and nothing is retried: no commit and
  no listener registration. The classes and attributes of every image are as before,
  so no failure is recorded; a later \<^verbatim>\<open>loadImage\<close> on the image, if it is not loaded,
  commits again.
\<close>

theorem fireError_rejects_and_cleans_up:
  assumes "i < length (images s)" and "p \<in> set (error_listeners (images s ! i))"
    and "p < length (promises s)" and "pstate (promises s ! p) = Pending"
  shows "pstate (promises (fireError i e s) ! p) = Rejected e \<and>
         p \<notin> set (load_listeners (images (fireError i e s) ! i)) \<and>
         p \<notin> set (error_listeners (images (fireError i e s) ! i)) \<and>
         count_list (trace (fireError i e s)) (Cleanup i p) = Suc (count_list (trace s) (Cleanup i p)) \<and>
         (\<forall>k. commits k (fireError i e s) = commits k s) \<and>
         (\<forall>k q. count_list (trace (fireError i e s)) (Listen_load k q) = count_list (trace s) (Listen_load k q)) \<and>
         (\<forall>k q. count_list (trace (fireError i e s)) (Listen_error k q) = count_list (trace s) (Listen_error k q)) \<and>
         map attributes (images (fireError i e s)) = map attributes (images s) \<and>
         (\<not> loaded (images s ! i) \<longrightarrow>
            commits i (snd (loadImage i (fireError i e s))) = Suc (commits i s))"
proof -
  have rejected: "pstate (promises (fireError i e s) ! p) = Rejected e"
    using assms by (simp add: fireError_def promises_dispatchError)
  have gone: "p \<notin> set (load_listeners (images (fireError i e s) ! i))"
    "p \<notin> set (error_listeners (images (fireError i e s) ! i))"
    using assms by (simp_all add: fireError_def load_listeners_dispatchError error_listeners_dispatchError)
  have once: "count_list (trace (fireError i e s)) (Cleanup i p) = Suc (count_list (trace s) (Cleanup i p))"
    using assms by (simp add: fireError_def cleanups_dispatchError)
  have quiet: "commits k (fireError i e s) = commits k s"
    "count_list (trace (fireError i e s)) (Listen_load k q) = count_list (trace s) (Listen_load k q)"
    "count_list (trace (fireError i e s)) (Listen_error k q) = count_list (trace s) (Listen_error k q)"
    for k q
    by (simp_all add: fireError_def commits_def others_dispatchError)
  have still: "loaded (images (fireError i e s) ! i) = loaded (images s ! i)"
    by (simp add: fireError_def loaded_dispatchError)
  have again: "commits i (snd (loadImage i (fireError i e s))) = Suc (commits i s)"
    if "\<not> loaded (images s ! i)"
    using that by (simp add: commits_loadImage still quiet)
  from rejected gone once quiet attributes_fireError again show ?thesis
    by blast
qed

theorem fireError_rejects_and_cleans_up_witness:
  "0 < length (images in_flight) \<and> 0 \<in> set (error_listeners (images in_flight ! 0)) \<and>
   0 < length (promises in_flight) \<and> pstate (promises in_flight ! 0) = Pending \<and>
   \<not> loaded (images in_flight ! 0) \<and>
   pstate (promises (fireError 0 7 in_flight) ! 0) = Rejected 7 \<and>
   0 \<notin> set (load_listeners (images (fireError 0 7 in_flight) ! 0)) \<and>
   0 \<notin> set (error_listeners (images (fireError 0 7 in_flight) ! 0)) \<and>
   count_list (trace (fireError 0 7 in_flight)) (Cleanup 0 0) = Suc (count_list (trace in_flight) (Cleanup 0 0)) \<and>
   map attributes (images (fireError 0 7 in_flight)) = map attributes (images in_flight) \<and>
   commits 0 (snd (loadImage 0 (fireError 0 7 in_flight))) = Suc (commits 0 in_flight)"
proof -
  have h1: "0 < length (images in_flight)" and h2: "0 \<in> set (error_listeners (images in_flight ! 0))"
    and h3: "0 < length (promises in_flight)" and h4: "pstate (promises in_flight ! 0) = Pending"
    and h5: "\<not> loaded (images in_flight ! 0)"
    by code_simp+
  from fireError_rejects_and_cleans_up [OF h1 h2 h3 h4, of 7] h1 h2 h3 h4 h5 show ?thesis
    by blast
qed

section \<open>The observer and toggleMode, step by step\<close>

subsection \<open>The observer\<close>

lemma other_ensureObserver [simp]:
  "images (ensureObserver s) = images s" "currentMode (ensureObserver s) = currentMode s"
  "modeLabel (ensureObserver s) = modeLabel s" "promises (ensureObserver s) = promises s"
  "trace (ensureObserver s) = trace s"
  by (simp_all add: ensureObserver_def split: option.split)

lemma other_observe [simp]:
  "images (observe i s) = images s" "currentMode (observe i s) = currentMode s"
  "modeLabel (observe i s) = modeLabel s" "promises (observe i s) = promises s"
  "trace (observe i s) = trace s" "observers_made (observe i s) = observers_made s"
  by (simp_all add: observe_def split: option.split)

lemma other_unobserve [simp]:
  "images (unobserve i s) = images s" "currentMode (unobserve i s) = currentMode s"
  "modeLabel (unobserve i s) = modeLabel s" "promises (unobserve i s) = promises s"
  "trace (unobserve i s) = trace s" "observers_made (unobserve i s) = observers_made s"
  by (simp_all add: unobserve_def split: option.split)

lemma watch_list_upd_img [simp]: "watch_list (upd_img i f s) = watch_list s"
  by (simp add: watch_list_def)

lemma watch_list_upd_btn [simp]: "watch_list (upd_btn i f s) = watch_list s"
  by (simp add: watch_list_def)

lemma watch_list_ensureObserver [simp]: "watch_list (ensureObserver s) = watch_list s"
  by (simp add: watch_list_def ensureObserver_def split: option.split)

lemma watch_list_observe_ensure:
  "watch_list (observe i (ensureObserver s)) =
     (if i \<in> set (watch_list s) then watch_list s else watch_list s @ [i])"
  by (cases "io s") (auto simp: watch_list_def observe_def ensureObserver_def)

lemma watch_list_unobserve [simp]: "watch_list (unobserve i s) = removeAll i (watch_list s)"
  by (simp add: watch_list_def unobserve_def split: option.split)

lemma ensureObserver_id: "io s = Some ob \<Longrightarrow> ensureObserver s = s"
  by (simp add: ensureObserver_def)

lemma observe_id: "watched i s \<Longrightarrow> observe i s = s"
  by (auto simp: watched_def watch_list_def observe_def split: option.splits)

lemma unobserve_id: "\<not> watched i s \<Longrightarrow> unobserve i s = s"
  by (auto simp: watched_def watch_list_def unobserve_def split: option.splits)

lemma upd_img_id: "f (images s ! i) = images s ! i \<Longrightarrow> upd_img i f s = s"
  by (simp add: upd_img_def)

subsection \<open>toggleImage\<close>

lemma other_toggleImage [simp]:
  "currentMode (toggleImage j s) = currentMode s" "modeLabel (toggleImage j s) = modeLabel s"
  "promises (toggleImage j s) = promises s" "trace (toggleImage j s) = trace s"
  "length (images (toggleImage j s)) = length (images s)"
  by (simp_all add: toggleImage_def Let_def split: option.split)

lemma images_toggleImage_nth:
  "j < length (images s) \<Longrightarrow>
   images (toggleImage j s) ! k =
     (if k = j
      then (if loaded (images s ! j) then (images s ! j)\<lparr>data_load := Some (currentMode s)\<rparr>
            else (images s ! j)\<lparr>data_load := Some (currentMode s),
                   btn := map_option (\<lambda>b. b\<lparr>hidden := (currentMode s = ''scroll'')\<rparr>) (btn (images s ! j))\<rparr>)
      else images s ! k)"
  by (auto simp: toggleImage_def Let_def images_upd_img_nth images_upd_btn_nth split: option.split)

lemma watch_list_toggleImage:
  "j < length (images s) \<Longrightarrow>
   watch_list (toggleImage j s) =
     (if loaded (images s ! j) then watch_list s
      else if currentMode s = ''scroll''
           then (if j \<in> set (watch_list s) then watch_list s else watch_list s @ [j])
           else removeAll j (watch_list s))"
  by (auto simp: toggleImage_def Let_def images_upd_img_nth images_upd_btn_nth
      watch_list_observe_ensure split: option.split)
    (simp_all add: watch_list_def)

lemma loaded_toggleImage [simp]:
  "j < length (images s) \<Longrightarrow> loaded (images (toggleImage j s) ! k) = loaded (images s ! k)"
  by (simp add: images_toggleImage_nth)

lemma toggleImage_reconciled_id:
  assumes "j < length (images s)" and "reconciled j s"
  shows "toggleImage j s = s"
proof -
  have attr: "upd_img j (\<lambda>im. im\<lparr>data_load := Some (currentMode s)\<rparr>) s = s"
    using assms by (intro upd_img_id) (simp add: reconciled_def)
  have step: "toggleImage j s =
      (if loaded (images s ! j) then s
       else if currentMode s = ''scroll''
            then observe j (ensureObserver (upd_btn j (\<lambda>b. b\<lparr>hidden := True\<rparr>) s))
            else (case io (upd_btn j (\<lambda>b. b\<lparr>hidden := False\<rparr>) s) of
                    None \<Rightarrow> upd_btn j (\<lambda>b. b\<lparr>hidden := False\<rparr>) s
                  | Some ob \<Rightarrow> unobserve j (upd_btn j (\<lambda>b. b\<lparr>hidden := False\<rparr>) s)))"
    by (simp only: toggleImage_def Let_def attr)
  show ?thesis
  proof (cases "loaded (images s ! j)")
    case True
    then show ?thesis
      by (simp add: step)
  next
    case False
    show ?thesis
    proof (cases "currentMode s = ''scroll''")
      case True
      with False assms have hid: "upd_btn j (\<lambda>b. b\<lparr>hidden := True\<rparr>) s = s"
        unfolding upd_btn_def
        by (intro upd_img_id) (auto simp: reconciled_def split: option.splits)
      from True False assms have w: "watched j s"
        by (simp add: reconciled_def)
      then obtain ob where "io s = Some ob"
        by (cases "io s") (auto simp: watched_def watch_list_def)
      with w True False show ?thesis
        by (simp add: step hid ensureObserver_id observe_id)
    next
      case click: False
      with False assms have hid: "upd_btn j (\<lambda>b. b\<lparr>hidden := False\<rparr>) s = s"
        unfolding upd_btn_def
        by (intro upd_img_id) (auto simp: reconciled_def split: option.splits)
      from click False assms have "\<not> watched j s"
        by (simp add: reconciled_def)
      with click False show ?thesis
        by (simp add: step hid unobserve_id split: option.split)
    qed
  qed
qed

lemma toggleImage_reconciles:
  "j < length (images s) \<Longrightarrow> reconciled j (toggleImage j s)"
  by (auto simp: reconciled_def images_toggleImage_nth watched_def watch_list_toggleImage
      split: option.splits)

lemma toggleImage_keeps_reconciled:
  "j < length (images s) \<Longrightarrow> k \<noteq> j \<Longrightarrow> reconciled k s \<Longrightarrow> reconciled k (toggleImage j s)"
  by (auto simp: reconciled_def images_toggleImage_nth watched_def watch_list_toggleImage
      split: option.splits if_splits)

lemma other_forEach_toggleImage [simp]:
  "currentMode (forEach toggleImage js s) = currentMode s \<and>
   modeLabel (forEach toggleImage js s) = modeLabel s \<and>
   promises (forEach toggleImage js s) = promises s \<and>
   trace (forEach toggleImage js s) = trace s \<and>
   length (images (forEach toggleImage js s)) = length (images s)"
  by (induction js arbitrary: s) simp_all

lemma loaded_forEach_toggleImage:
  "\<forall>j\<in>set js. j < length (images s) \<Longrightarrow>
   loaded (images (forEach toggleImage js s) ! k) = loaded (images s ! k)"
  by (induction js arbitrary: s) simp_all

lemma forEach_toggleImage_reconciles:
  "reconciled k s \<or> k \<in> set js \<Longrightarrow> \<forall>j\<in>set js. j < length (images s) \<Longrightarrow>
   reconciled k (forEach toggleImage js s)"
proof (induction js arbitrary: s)
  case Nil
  then show ?case by simp
next
  case (Cons j js)
  from Cons.prems have j: "j < length (images s)"
    by simp
  have "reconciled k (toggleImage j s) \<or> k \<in> set js"
  proof (cases "k = j")
    case True
    with j show ?thesis
      by (simp add: toggleImage_reconciles)
  next
    case False
    with Cons.prems(1) j show ?thesis
      by (auto simp: toggleImage_keeps_reconciled)
  qed
  moreover from Cons.prems have "\<forall>j'\<in>set js. j' < length (images (toggleImage j s))"
    by simp
  ultimately show ?case
    by (simp add: Cons.IH)
qed

lemma forEach_toggleImage_id:
  "\<forall>j\<in>set js. j < length (images s) \<and> reconciled j s \<Longrightarrow> forEach toggleImage js s = s"
  by (induction js) (simp_all add: toggleImage_reconciled_id)

lemma toggleMode_fields [simp]:
  "currentMode (toggleMode b s) = mode_of b"
  "modeLabel (toggleMode b s) = (if b then Auto_on_scroll else Po_kliku_on_click)"
  "promises (toggleMode b s) = promises s" "trace (toggleMode b s) = trace s"
  "length (images (toggleMode b s)) = length (images s)"
  by (simp_all add: toggleMode_def mode_of_def)

lemma toggleMode_reconciles:
  "k < length (images s) \<Longrightarrow> reconciled k (toggleMode b s)"
  unfolding toggleMode_def
  by (rule forEach_toggleImage_reconciles) simp_all

lemma toggleMode_twice: "toggleMode b (toggleMode b s) = toggleMode b s"
proof -
  let ?t = "toggleMode b s"
  have "?t\<lparr>currentMode := (if b then ''scroll'' else ''click''),
           modeLabel := (if b then Auto_on_scroll else Po_kliku_on_click)\<rparr> = ?t"
    by (simp add: mode_of_def)
  then have "toggleMode b ?t = forEach toggleImage [0..<length (images ?t)] ?t"
    by (simp add: toggleMode_def [of b ?t])
  also have "\<dots> = ?t"
    by (rule forEach_toggleImage_id) (simp add: toggleMode_reconciles)
  finally show ?thesis .
qed


lemma distinct_forEach_toggleImage:
  "distinct (watch_list s) \<Longrightarrow> \<forall>j\<in>set js. j < length (images s) \<Longrightarrow>
   distinct (watch_list (forEach toggleImage js s))"
proof (induction js arbitrary: s)
  case Nil
  then show ?case by simp
next
  case (Cons j js)
  from Cons.prems have "distinct (watch_list (toggleImage j s))"
    by (simp add: watch_list_toggleImage distinct_removeAll)
  with Cons.prems show ?case
    by (simp add: Cons.IH)
qed

lemma forEach_toggleImage_loaded:
  assumes "i < length (images s)" and "loaded (images s ! i)" and "\<forall>j\<in>set js. j < length (images s)"
  shows "images (forEach toggleImage js s) ! i =
           (if i \<in> set js then (images s ! i)\<lparr>data_load := Some (currentMode s)\<rparr> else images s ! i) \<and>
         watched i (forEach toggleImage js s) = watched i s"
  using assms
proof (induction js arbitrary: s)
  case Nil
  then show ?case by simp
next
  case (Cons j js)
  let ?s = "toggleImage j s"
  from Cons.prems have j: "j < length (images s)"
    by simp
  have img: "images ?s ! i = (if i = j then (images s ! i)\<lparr>data_load := Some (currentMode s)\<rparr> else images s ! i)"
    using j Cons.prems(2) by (auto simp: images_toggleImage_nth)
  have w: "watched i ?s = watched i s"
    using j Cons.prems(2) by (auto simp: watched_def watch_list_toggleImage)
  have "images (forEach toggleImage js ?s) ! i =
          (if i \<in> set js then (images ?s ! i)\<lparr>data_load := Some (currentMode ?s)\<rparr> else images ?s ! i) \<and>
        watched i (forEach toggleImage js ?s) = watched i ?s"
    using Cons.prems j by (intro Cons.IH) simp_all
  then have "images (forEach toggleImage (j # js) s) ! i =
          (if i \<in> set js then (images ?s ! i)\<lparr>data_load := Some (currentMode s)\<rparr> else images ?s ! i)"
    and "watched i (forEach toggleImage (j # js) s) = watched i s"
    by (simp_all add: w)
  then show ?case
    unfolding img by auto
qed

section \<open>toggleMode twice\<close>

text \<open>
  C9. \<^verbatim>\<open>toggleMode\<close> with the same value twice in a row leaves the state that the
  first call made: the same observed images, the same buttons hidden or shown, the same
  mode label. No image is observed twice: a list of targets without repetition stays
  so, and observing an image that is observed already changes nothing.
\<close>

theorem toggleMode_idempotent:
  "toggleMode b (toggleMode b s) = toggleMode b s \<and>
   (distinct (watch_list s) \<longrightarrow> distinct (watch_list (toggleMode b s))) \<and>
   (\<forall>i. watched i s \<longrightarrow> observe i s = s)"
proof -
  have "distinct (watch_list (toggleMode b s))" if "distinct (watch_list s)"
    unfolding toggleMode_def using that
    by (intro distinct_forEach_toggleImage) (simp_all add: watch_list_def)
  then show ?thesis
    by (simp add: toggleMode_twice observe_id)
qed

theorem toggleMode_idempotent_witness:
  "distinct (watch_list (init gallery)) \<and> watched 0 (init gallery) \<and>
   toggleMode False (toggleMode False (init gallery)) = toggleMode False (init gallery) \<and>
   toggleMode True (toggleMode True (init gallery)) = toggleMode True (init gallery) \<and>
   distinct (watch_list (toggleMode True (init gallery))) \<and>
   observe 0 (init gallery) = init gallery"
proof -
  have h1: "distinct (watch_list (init gallery))" and h2: "watched 0 (init gallery)"
    by code_simp+
  from toggleMode_idempotent [of False "init gallery"] toggleMode_idempotent [of True "init gallery"]
    h1 h2 show ?thesis
    by blast
qed

section \<open>toggleMode and a loaded image\<close>

text \<open>
  C3, as the claim states it, fails: \<^verbatim>\<open>toggleMode\<close> writes \<^verbatim>\<open>img.dataset.load\<close>
  before it asks whether the image is loaded. The third image of the gallery is loaded
  and says \<^verbatim>\<open>scroll\<close>; after \<^verbatim>\<open>toggleMode(false)\<close> it says \<^verbatim>\<open>click\<close>.
\<close>

theorem toggleMode_loaded_counterexample:
  "loaded (images gallery ! 2) \<and> data_load (images gallery ! 2) = Some ''scroll'' \<and>
   data_load (images (toggleMode False gallery) ! 2) = Some ''click''"
  by code_simp

text \<open>
  C3, amended. On an image that is loaded, \<^verbatim>\<open>toggleMode\<close> writes the new mode to
  \<^verbatim>\<open>data-load\<close> and changes nothing else of it: its button (hidden or shown), its
  classes, its other attributes and its listeners are as before, and it is observed
  exactly if it was observed before.
\<close>

theorem toggleMode_loaded_image:
  assumes "i < length (images s)" and "loaded (images s ! i)"
  shows "images (toggleMode b s) ! i = (images s ! i)\<lparr>data_load := Some (mode_of b)\<rparr> \<and>
         watched i (toggleMode b s) = watched i s"
proof -
  let ?s = "s\<lparr>currentMode := (if b then ''scroll'' else ''click''),
               modeLabel := (if b then Auto_on_scroll else Po_kliku_on_click)\<rparr>"
  have "images (forEach toggleImage [0..<length (images ?s)] ?s) ! i =
          (if i \<in> set [0..<length (images ?s)] then (images ?s ! i)\<lparr>data_load := Some (currentMode ?s)\<rparr>
           else images ?s ! i) \<and>
        watched i (forEach toggleImage [0..<length (images ?s)] ?s) = watched i ?s"
    using assms by (intro forEach_toggleImage_loaded) simp_all
  with assms show ?thesis
    by (simp add: toggleMode_def mode_of_def watched_def watch_list_def)
qed

theorem toggleMode_loaded_image_witness:
  "2 < length (images (init gallery)) \<and> loaded (images (init gallery) ! 2) \<and>
   images (toggleMode False (init gallery)) ! 2 =
     (images (init gallery) ! 2)\<lparr>data_load := Some (mode_of False)\<rparr> \<and>
   watched 2 (toggleMode False (init gallery)) = watched 2 (init gallery)"
proof -
  have h1: "2 < length (images (init gallery))" and h2: "loaded (images (init gallery) ! 2)"
    by code_simp+
  from toggleMode_loaded_image [OF h1 h2, of False] h1 h2 show ?thesis
    by blast
qed

section \<open>The observer's callback\<close>

lemma other_attach [simp]:
  "io (attach p r s) = io s" "currentMode (attach p r s) = currentMode s"
  "modeLabel (attach p r s) = modeLabel s" "trace (attach p r s) = trace s"
  "observers_made (attach p r s) = observers_made s"
  "length (images (attach p r s)) = length (images s)"
  "length (promises (attach p r s)) = length (promises s)"
  by (simp_all add: attach_def Let_def split: pstate.split)

lemma promises_attach:
  "promises (attach p r s) = (promises s)[p := (promises s ! p)\<lparr>reaction := r\<rparr>]"
  by (simp add: attach_def Let_def split: pstate.split)

lemma watch_list_cong: "io s = io t \<Longrightarrow> watch_list s = watch_list t"
  by (simp add: watch_list_def)

lemma react_Catch [simp]: "react Catch_reaction st s = s"
  by (simp add: react_def)








section \<open>The life of the observer\<close>

lemma other_disconnectObserver [simp]:
  "images (disconnectObserver s) = images s" "promises (disconnectObserver s) = promises s"
  "currentMode (disconnectObserver s) = currentMode s" "modeLabel (disconnectObserver s) = modeLabel s"
  "observers_made (disconnectObserver s) = observers_made s" "io (disconnectObserver s) = None"
  by (simp_all add: disconnectObserver_def split: option.split)

lemma deliver_no_observer: "io s = None \<Longrightarrow> deliver ens s = s"
  by (simp add: deliver_def)

text \<open>
  C10. There is one observer at a time. \<^verbatim>\<open>ensureObserver\<close> makes one when there is
  none, a new instance that observes nothing yet, and returns the one there is
  otherwise. Disconnecting leaves no observer and no observed image, so that no entry is
  delivered any more; the next \<^verbatim>\<open>ensureObserver\<close> makes an instance that is not the
  discarded one, and an image can be observed with it. Disconnecting touches neither the
  images nor the promises: a load in flight still ends, loaded and fulfilled when
  \<^verbatim>\<open>load\<close> fires, rejected when \<^verbatim>\<open>error\<close> fires.
\<close>

theorem observer_lifecycle:
  "(io s = None \<longrightarrow>
      io (ensureObserver s) = Some \<lparr>oid = observers_made s, targets = []\<rparr> \<and>
      observers_made (ensureObserver s) = Suc (observers_made s)) \<and>
   (io s \<noteq> None \<longrightarrow> ensureObserver s = s) \<and>
   io (disconnectObserver s) = None \<and> watch_list (disconnectObserver s) = [] \<and>
   (\<forall>ens. deliver ens (disconnectObserver s) = disconnectObserver s) \<and>
   (\<forall>ob. io s = Some ob \<and> oid ob < observers_made s \<longrightarrow>
      io (ensureObserver (disconnectObserver s)) = Some \<lparr>oid = observers_made s, targets = []\<rparr> \<and>
      observers_made s \<noteq> oid ob) \<and>
   (\<forall>j. watched j (observe j (ensureObserver (disconnectObserver s)))) \<and>
   images (disconnectObserver s) = images s \<and> promises (disconnectObserver s) = promises s \<and>
   (\<forall>i p. i < length (images s) \<and> p \<in> set (load_listeners (images s ! i)) \<and>
          p < length (promises s) \<and> pstate (promises s ! p) = Pending \<longrightarrow>
      loaded (images (fireLoad i (disconnectObserver s)) ! i) \<and>
      pstate (promises (fireLoad i (disconnectObserver s)) ! p) = Fulfilled) \<and>
   (\<forall>i p e. i < length (images s) \<and> p \<in> set (error_listeners (images s ! i)) \<and>
          p < length (promises s) \<and> pstate (promises s ! p) = Pending \<longrightarrow>
      pstate (promises (fireError i e (disconnectObserver s)) ! p) = Rejected e)"
proof -
  have made: "io (ensureObserver s) = Some \<lparr>oid = observers_made s, targets = []\<rparr> \<and>
      observers_made (ensureObserver s) = Suc (observers_made s)" if "io s = None"
    using that by (simp add: ensureObserver_def)
  have kept: "ensureObserver s = s" if "io s \<noteq> None"
    using that by (auto simp: ensureObserver_def split: option.split)
  have silent: "deliver ens (disconnectObserver s) = disconnectObserver s" for ens
    by (simp add: deliver_no_observer)
  have fresh: "io (ensureObserver (disconnectObserver s)) = Some \<lparr>oid = observers_made s, targets = []\<rparr>"
    by (simp add: ensureObserver_def)
  have again: "watched j (observe j (ensureObserver (disconnectObserver s)))" for j
    by (simp add: watched_def watch_list_observe_ensure)
  have on_load: "loaded (images (fireLoad i (disconnectObserver s)) ! i) \<and>
      pstate (promises (fireLoad i (disconnectObserver s)) ! p) = Fulfilled"
    if "i < length (images s)" and "p \<in> set (load_listeners (images s ! i))"
      and "p < length (promises s)" and "pstate (promises s ! p) = Pending" for i p
    using that by (auto simp: fireLoad_def loaded_dispatchLoad promises_dispatchLoad)
  have on_error: "pstate (promises (fireError i e (disconnectObserver s)) ! p) = Rejected e"
    if "i < length (images s)" and "p \<in> set (error_listeners (images s ! i))"
      and "p < length (promises s)" and "pstate (promises s ! p) = Pending" for i p e
    using that by (simp add: fireError_def promises_dispatchError)
  have none: "io (disconnectObserver s) = None \<and> watch_list (disconnectObserver s) = []"
    by (simp add: watch_list_def)
  have same: "images (disconnectObserver s) = images s \<and> promises (disconnectObserver s) = promises s"
    by simp
  have other: "observers_made s \<noteq> oid ob" if "oid ob < observers_made s" for ob
    using that by simp
  from made kept none silent fresh other again same on_load on_error show ?thesis
    by blast
qed

theorem observer_lifecycle_witness:
  "io gallery = None \<and> io (init gallery) \<noteq> None \<and>
   io (ensureObserver gallery) = Some \<lparr>oid = observers_made gallery, targets = []\<rparr> \<and>
   ensureObserver (init gallery) = init gallery \<and>
   io (init gallery) = Some \<lparr>oid = 0, targets = [0, 2]\<rparr> \<and> 0 < observers_made (init gallery) \<and>
   io (ensureObserver (disconnectObserver (init gallery))) =
     Some \<lparr>oid = observers_made (init gallery), targets = []\<rparr> \<and>
   observers_made (init gallery) \<noteq> 0 \<and>
   0 < length (images in_flight) \<and> 0 \<in> set (load_listeners (images in_flight ! 0)) \<and>
   0 \<in> set (error_listeners (images in_flight ! 0)) \<and>
   0 < length (promises in_flight) \<and> pstate (promises in_flight ! 0) = Pending \<and>
   loaded (images (fireLoad 0 (disconnectObserver in_flight)) ! 0) \<and>
   pstate (promises (fireLoad 0 (disconnectObserver in_flight)) ! 0) = Fulfilled \<and>
   pstate (promises (fireError 0 7 (disconnectObserver in_flight)) ! 0) = Rejected 7"
proof -
  have a1: "io gallery = None" and a2: "io (init gallery) \<noteq> None"
    and a3: "io (init gallery) = Some \<lparr>oid = 0, targets = [0, 2]\<rparr>"
    and a4: "0 < observers_made (init gallery)"
    by code_simp+
  have b1: "0 < length (images in_flight)" and b2: "0 \<in> set (load_listeners (images in_flight ! 0))"
    and b3: "0 \<in> set (error_listeners (images in_flight ! 0))"
    and b4: "0 < length (promises in_flight)" and b5: "pstate (promises in_flight ! 0) = Pending"
    by code_simp+
  from observer_lifecycle [of gallery] a1
  have c1: "io (ensureObserver gallery) = Some \<lparr>oid = observers_made gallery, targets = []\<rparr>"
    by blast
  from observer_lifecycle [of "init gallery"] a2
  have c2: "ensureObserver (init gallery) = init gallery"
    by blast
  from observer_lifecycle [of "init gallery"] a3 a4
  have c3: "io (ensureObserver (disconnectObserver (init gallery))) =
       Some \<lparr>oid = observers_made (init gallery), targets = []\<rparr> \<and> observers_made (init gallery) \<noteq> 0"
    by (metis observer.select_convs(1))
  from observer_lifecycle [of in_flight] b1 b2 b3 b4 b5
  have c4: "loaded (images (fireLoad 0 (disconnectObserver in_flight)) ! 0) \<and>
     pstate (promises (fireLoad 0 (disconnectObserver in_flight)) ! 0) = Fulfilled \<and>
     pstate (promises (fireError 0 7 (disconnectObserver in_flight)) ! 0) = Rejected 7"
    by blast
  from a1 a2 a3 a4 b1 b2 b3 b4 b5 c1 c2 c3 c4 show ?thesis
    by blast
qed

section \<open>Click listeners are bound by setupImages only\<close>

lemma handlers_upd_btn:
  "(\<And>b. clickHandlers (f b) = clickHandlers b) \<Longrightarrow>
   map handlers (images (upd_btn i f s)) = map handlers (images s)"
  unfolding upd_btn_def
  by (rule map_upd_img_same) (simp add: handlers_def split: option.split)

lemma handlers_react: "map handlers (images (react r st s)) = map handlers (images s)"
  by (cases r; cases st) (simp_all add: react_def handlers_upd_btn)

lemma handlers_settle: "map handlers (images (settle p st s)) = map handlers (images s)"
  by (simp add: settle_def handlers_react)

lemma handlers_attach: "map handlers (images (attach p r s)) = map handlers (images s)"
  by (simp add: attach_def Let_def handlers_react split: pstate.split)

lemma handlers_loadImage:
  "map handlers (images (snd (loadImage i s))) = map handlers (images s)"
  by (simp add: list_eq_iff_nth_eq handlers_def loadImage_fields)

lemma handlers_cleanup: "map handlers (images (cleanup i p s)) = map handlers (images s)"
  by (simp add: cleanup_def map_upd_img_same handlers_def)

lemma handlers_onLoad: "map handlers (images (onLoad i p s)) = map handlers (images s)"
  by (simp add: onLoad_def handlers_settle handlers_cleanup map_upd_img_same handlers_def)

lemma handlers_onError: "map handlers (images (onError i p e s)) = map handlers (images s)"
  by (simp add: onError_def handlers_settle handlers_cleanup)

lemma handlers_dispatchLoad:
  "map handlers (images (dispatchLoad i ps s)) = map handlers (images s)"
  by (induction ps arbitrary: s) (simp_all add: handlers_onLoad map_upd_img_same handlers_def)

lemma handlers_dispatchError:
  "map handlers (images (dispatchError i e ps s)) = map handlers (images s)"
  by (induction ps arbitrary: s) (simp_all add: handlers_onError map_upd_img_same handlers_def)

lemma handlers_clickHandler:
  "map handlers (images (clickHandler i s)) = map handlers (images s)"
proof -
  have "map handlers (images (snd (loadImage i (upd_btn i (\<lambda>b. b\<lparr>disabled := True, textContent := Loading_caption\<rparr>) s))))
          = map handlers (images s)"
    by (simp add: handlers_loadImage handlers_upd_btn)
  then show ?thesis
    by (simp add: clickHandler_def split_beta handlers_attach)
qed

lemma handlers_funpow_clickHandler:
  "map handlers (images ((clickHandler i ^^ n) s)) = map handlers (images s)"
  by (induction n) (simp_all add: handlers_clickHandler)

lemma handlers_activate: "map handlers (images (activate i s)) = map handlers (images s)"
  by (simp add: activate_def handlers_funpow_clickHandler split: option.split)

lemma handlers_onEntry: "map handlers (images (onEntry en s)) = map handlers (images s)"
  by (simp add: onEntry_def split_beta handlers_attach handlers_loadImage)

lemma handlers_observerCallback:
  "map handlers (images (observerCallback ens s)) = map handlers (images s)"
  by (induction ens arbitrary: s) (simp_all add: handlers_onEntry)

lemma handlers_deliver: "map handlers (images (deliver ens s)) = map handlers (images s)"
  by (simp add: deliver_def handlers_observerCallback split: option.split)

lemma handlers_toggleImage: "map handlers (images (toggleImage j s)) = map handlers (images s)"
  by (simp add: toggleImage_def Let_def handlers_upd_btn map_upd_img_same handlers_def
      split: option.split)

lemma handlers_forEach_toggleImage:
  "map handlers (images (forEach toggleImage js s)) = map handlers (images s)"
  by (induction js arbitrary: s) (simp_all add: handlers_toggleImage)

lemma handlers_toggleMode: "map handlers (images (toggleMode b s)) = map handlers (images s)"
  by (simp add: toggleMode_def handlers_forEach_toggleImage)

lemma handlers_mapLoadImage:
  "map handlers (images (snd (mapLoadImage js s))) = map handlers (images s)"
proof (induction js arbitrary: s)
  case Nil
  show ?case by simp
next
  case (Cons j js)
  have "map handlers (images (snd (mapLoadImage js (snd (loadImage j s))))) = map handlers (images s)"
    by (simp add: Cons.IH handlers_loadImage)
  then show ?case
    by (simp add: split_beta)
qed

lemma handlers_forEach_attach:
  "map handlers (images (forEach (\<lambda>p. attach p r) ps s)) = map handlers (images s)"
  by (induction ps arbitrary: s) (simp_all add: handlers_attach)

lemma handlers_loadAll: "map handlers (images (snd (loadAll s))) = map handlers (images s)"
  by (simp add: loadAll_def split_beta handlers_forEach_attach handlers_mapLoadImage)

lemma handlers_step: "map handlers (images (step a s)) = map handlers (images s)"
  by (cases a)
    (simp_all add: handlers_toggleMode handlers_loadAll handlers_activate handlers_deliver
      fireLoad_def fireError_def handlers_dispatchLoad handlers_dispatchError)

lemma handlers_run: "map handlers (images (run as s)) = map handlers (images s)"
  by (induction as arbitrary: s) (simp_all add: handlers_step)

lemma handlers_run_nth:
  assumes "i < length (images s)"
  shows "handlers (images (run as s) ! i) = handlers (images s ! i)"
proof -
  have "length (images (run as s)) = length (images s)"
    using handlers_run [of as s] by (metis length_map)
  with assms have "handlers (images (run as s) ! i) = map handlers (images (run as s)) ! i"
    by simp
  also have "\<dots> = handlers (images s ! i)"
    using assms by (simp add: handlers_run)
  finally show ?thesis .
qed

subsection \<open>setupImages\<close>

lemma length_images_setupImage [simp]: "length (images (setupImage j s)) = length (images s)"
  by (simp add: setupImage_def)

lemma images_setupImage_nth:
  "images (setupImage j s) ! k =
     (images s ! k)\<lparr>btn :=
        (if k = j \<and> j < length (images s)
         then (if loadMode (images s ! j) = ''click''
               then map_option (\<lambda>b. b\<lparr>hidden := False, clickHandlers := Suc (clickHandlers b)\<rparr>) (btn (images s ! k))
               else map_option (\<lambda>b. b\<lparr>hidden := True\<rparr>) (btn (images s ! k)))
         else btn (images s ! k))\<rparr>"
  by (simp add: setupImage_def images_upd_btn_nth)

lemma forEach_setupImage_scroll:
  assumes "loadMode (images s ! i) \<noteq> ''click''"
  shows "length (images (forEach setupImage js s)) = length (images s) \<and>
         loadMode (images (forEach setupImage js s) ! i) = loadMode (images s ! i) \<and>
         handlers (images (forEach setupImage js s) ! i) = handlers (images s ! i)"
  using assms
proof (induction js arbitrary: s)
  case Nil
  show ?case by simp
next
  case (Cons j js)
  have keep: "loadMode (images (setupImage j s) ! i) = loadMode (images s ! i)"
    by (simp add: images_setupImage_nth loadMode_def)
  have same: "handlers (images (setupImage j s) ! i) = handlers (images s ! i)"
    using Cons.prems by (auto simp: images_setupImage_nth handlers_def split: option.split)
  from Cons.prems keep have "loadMode (images (setupImage j s) ! i) \<noteq> ''click''"
    by simp
  from Cons.IH [OF this] keep same show ?case
    by simp
qed

lemma run_append: "run (as @ bs) s = run bs (run as s)"
  by (induction as arbitrary: s) simp_all

lemma activate_no_handler: "handlers (images s ! i) = 0 \<Longrightarrow> activate i s = s"
  by (simp add: activate_def handlers_def split: option.splits)

text \<open>
  C4. Take an image whose mode at \<^verbatim>\<open>init\<close> is not \<^verbatim>\<open>click\<close> and whose button carries no
  click listener of the script before \<^verbatim>\<open>init\<close>. Whatever happens after \<^verbatim>\<open>init\<close>, the
  button never gets a click listener, and activating it changes nothing: no
  \<^verbatim>\<open>loadImage\<close> is called. This holds in particular after \<^verbatim>\<open>toggleMode(false)\<close>, which
  shows the button of the image, if it has one, unless the image is loaded.
\<close>

theorem revealed_button_has_no_handler:
  assumes "i < length (images s0)" and "loadMode (images s0 ! i) \<noteq> ''click''"
    and "handlers (images s0 ! i) = 0"
  shows "handlers (images (run as (init s0)) ! i) = 0 \<and>
         activate i (run as (init s0)) = run as (init s0) \<and>
         handlers (images (toggleMode False (run as (init s0))) ! i) = 0 \<and>
         activate i (toggleMode False (run as (init s0))) = toggleMode False (run as (init s0)) \<and>
         (\<not> loaded (images (run as (init s0)) ! i) \<longrightarrow>
            (case btn (images (toggleMode False (run as (init s0))) ! i) of
               None \<Rightarrow> True | Some b \<Rightarrow> \<not> hidden b))"
proof -
  let ?s = "run as (init s0)"
  from assms(2) have at_init: "length (images (init s0)) = length (images s0)"
    "handlers (images (init s0) ! i) = handlers (images s0 ! i)"
    unfolding init_def setupImages_def
    using forEach_setupImage_scroll [of s0 i "[0..<length (images s0)]"] by simp_all
  with assms have none: "handlers (images ?s ! i) = 0"
    by (simp add: handlers_run_nth)
  have len: "length (images ?s) = length (images s0)"
    using handlers_run [of as "init s0"] at_init(1) by (metis length_map)
  have "handlers (images (run (as @ [Change_mode False]) (init s0)) ! i) = 0"
    using assms at_init by (simp add: handlers_run_nth)
  moreover have "run (as @ [Change_mode False]) (init s0) = toggleMode False ?s"
    by (simp add: run_append)
  ultimately have none': "handlers (images (toggleMode False ?s) ! i) = 0"
    by simp
  have "reconciled i (toggleMode False ?s)"
    using assms(1) len by (simp add: toggleMode_reconciles)
  moreover have "loaded (images (toggleMode False ?s) ! i) = loaded (images ?s ! i)"
    unfolding toggleMode_def by (subst loaded_forEach_toggleImage) simp_all
  ultimately have revealed: "case btn (images (toggleMode False ?s) ! i) of
      None \<Rightarrow> True | Some b \<Rightarrow> \<not> hidden b" if "\<not> loaded (images ?s ! i)"
    using that by (simp add: reconciled_def mode_of_def)
  from none none' revealed show ?thesis
    by (simp add: activate_no_handler)
qed

theorem revealed_button_has_no_handler_witness:
  "0 < length (images gallery) \<and> loadMode (images gallery ! 0) \<noteq> ''click'' \<and>
   handlers (images gallery ! 0) = 0 \<and>
   \<not> loaded (images (run [Click_loadAll, Error_event 0 7] (init gallery)) ! 0) \<and>
   handlers (images (toggleMode False (run [Click_loadAll, Error_event 0 7] (init gallery))) ! 0) = 0 \<and>
   activate 0 (toggleMode False (run [Click_loadAll, Error_event 0 7] (init gallery))) =
     toggleMode False (run [Click_loadAll, Error_event 0 7] (init gallery)) \<and>
   (case btn (images (toggleMode False (run [Click_loadAll, Error_event 0 7] (init gallery))) ! 0) of
      None \<Rightarrow> True | Some b \<Rightarrow> \<not> hidden b) \<and>
   shown (images (toggleMode False (run [Click_loadAll, Error_event 0 7] (init gallery))) ! 0)"
proof -
  have h1: "0 < length (images gallery)" and h2: "loadMode (images gallery ! 0) \<noteq> ''click''"
    and h3: "handlers (images gallery ! 0) = 0"
    and h4: "\<not> loaded (images (run [Click_loadAll, Error_event 0 7] (init gallery)) ! 0)"
    and h5: "shown (images (toggleMode False (run [Click_loadAll, Error_event 0 7] (init gallery))) ! 0)"
    by code_simp+
  from revealed_button_has_no_handler [OF h1 h2 h3, of "[Click_loadAll, Error_event 0 7]"]
    h1 h2 h3 h4 h5 show ?thesis
    by blast
qed

section \<open>loadAll and the events that follow\<close>

subsection \<open>The calls of loadImage\<close>

lemma mapLoadImage_closed:
  assumes "\<forall>j\<in>set js. j < length (images s) \<and> \<not> loaded (images s ! j)"
  shows "fst (mapLoadImage js s) = [length (promises s)..<length (promises s) + length js] \<and>
         length (images (snd (mapLoadImage js s))) = length (images s) \<and>
         length (promises (snd (mapLoadImage js s))) = length (promises s) + length js \<and>
         (\<forall>q. q < length (promises s) + length js \<longrightarrow>
            pstate (promises (snd (mapLoadImage js s)) ! q) =
              (if q < length (promises s) then pstate (promises s ! q) else Pending)) \<and>
         (\<forall>k. loaded (images (snd (mapLoadImage js s)) ! k) = loaded (images s ! k)) \<and>
         (\<forall>i. load_listeners (images (snd (mapLoadImage js s)) ! i) =
            load_listeners (images s ! i) @
              map snd (filter (\<lambda>jp. fst jp = i) (zip js (fst (mapLoadImage js s))))) \<and>
         (\<forall>i. error_listeners (images (snd (mapLoadImage js s)) ! i) =
            error_listeners (images s ! i) @
              map snd (filter (\<lambda>jp. fst jp = i) (zip js (fst (mapLoadImage js s))))) \<and>
         (\<forall>i. commits i (snd (mapLoadImage js s)) = commits i s + count_list js i)"
  using assms
proof (induction js arbitrary: s)
  case Nil
  show ?case by simp
next
  case (Cons j js)
  let ?n = "length (promises s)"
  let ?s = "snd (loadImage j s)"
  from Cons.prems have j: "j < length (images s)" "\<not> loaded (images s ! j)"
    by simp_all
  have unfold: "mapLoadImage (j # js) s = (?n # fst (mapLoadImage js ?s), snd (mapLoadImage js ?s))"
    by (simp add: split_beta)
  have "\<forall>j'\<in>set js. j' < length (images ?s) \<and> \<not> loaded (images ?s ! j')"
    using Cons.prems by (simp add: loadImage_fields)
  note ih = Cons.IH [OF this]
  have n': "length (promises ?s) = Suc ?n"
    by simp
  from ih have ps: "fst (mapLoadImage js ?s) = [Suc ?n..<Suc ?n + length js]"
    by (simp only: n')
  have upt: "[?n..<?n + length (j # js)] = ?n # [Suc ?n..<Suc ?n + length js]"
    by (subst upt_conv_Cons) simp_all
  have a: "fst (mapLoadImage (j # js) s) = [?n..<?n + length (j # js)]"
    by (simp only: unfold fst_conv ps upt)
  from ih have ih_b: "length (images (snd (mapLoadImage js ?s))) = length (images ?s)"
    and ih_c: "length (promises (snd (mapLoadImage js ?s))) = length (promises ?s) + length js"
    and ih_e: "\<And>k. loaded (images (snd (mapLoadImage js ?s)) ! k) = loaded (images ?s ! k)"
    by blast+
  have b: "length (images (snd (mapLoadImage (j # js) s))) = length (images s)"
    unfolding unfold snd_conv ih_b by simp
  have c: "length (promises (snd (mapLoadImage (j # js) s))) = ?n + length (j # js)"
    unfolding unfold snd_conv ih_c by simp
  have d: "pstate (promises (snd (mapLoadImage (j # js) s)) ! q) =
      (if q < ?n then pstate (promises s ! q) else Pending)" if "q < ?n + length (j # js)" for q
  proof -
    from that have "q < length (promises ?s) + length js"
      by simp
    with ih have "pstate (promises (snd (mapLoadImage js ?s)) ! q) =
        (if q < length (promises ?s) then pstate (promises ?s ! q) else Pending)"
      by blast
    with j show ?thesis
      unfolding unfold snd_conv by (auto simp: promises_loadImage nth_append less_Suc_eq)
  qed
  have e: "loaded (images (snd (mapLoadImage (j # js) s)) ! k) = loaded (images s ! k)" for k
    unfolding unfold snd_conv ih_e by (simp add: loadImage_fields)
  have f: "load_listeners (images (snd (mapLoadImage (j # js) s)) ! i) =
      load_listeners (images s ! i) @
        map snd (filter (\<lambda>jp. fst jp = i) (zip (j # js) (fst (mapLoadImage (j # js) s))))" for i
  proof -
    from ih have "load_listeners (images (snd (mapLoadImage js ?s)) ! i) =
        load_listeners (images ?s ! i) @
          map snd (filter (\<lambda>jp. fst jp = i) (zip js (fst (mapLoadImage js ?s))))"
      by blast
    with j show ?thesis
      unfolding unfold snd_conv fst_conv by (simp add: loadImage_fields)
  qed
  have g: "error_listeners (images (snd (mapLoadImage (j # js) s)) ! i) =
      error_listeners (images s ! i) @
        map snd (filter (\<lambda>jp. fst jp = i) (zip (j # js) (fst (mapLoadImage (j # js) s))))" for i
  proof -
    from ih have "error_listeners (images (snd (mapLoadImage js ?s)) ! i) =
        error_listeners (images ?s ! i) @
          map snd (filter (\<lambda>jp. fst jp = i) (zip js (fst (mapLoadImage js ?s))))"
      by blast
    with j show ?thesis
      unfolding unfold snd_conv fst_conv by (simp add: loadImage_fields)
  qed
  have h: "commits i (snd (mapLoadImage (j # js) s)) = commits i s + count_list (j # js) i" for i
  proof -
    from ih have "commits i (snd (mapLoadImage js ?s)) = commits i ?s + count_list js i"
      by blast
    with j show ?thesis
      unfolding unfold snd_conv by (simp add: commits_loadImage)
  qed
  from a b c d e f g h show ?case
    by blast
qed


lemma react_AllSettled [simp]: "react AllSettled_reaction st s = s"
  by (simp add: react_def)

lemma images_attach_AllSettled [simp]: "images (attach p AllSettled_reaction s) = images s"
  by (simp add: attach_def Let_def split: pstate.split)

lemma pstate_attach [simp]: "pstate (promises (attach p r s) ! q) = pstate (promises s ! q)"
  by (cases "p < length (promises s)")
    (auto simp: promises_attach nth_list_update list_update_beyond)

lemma forEach_attach_AllSettled:
  "images (forEach (\<lambda>p. attach p AllSettled_reaction) ps s) = images s \<and>
   trace (forEach (\<lambda>p. attach p AllSettled_reaction) ps s) = trace s \<and>
   length (promises (forEach (\<lambda>p. attach p AllSettled_reaction) ps s)) = length (promises s) \<and>
   (\<forall>q. pstate (promises (forEach (\<lambda>p. attach p AllSettled_reaction) ps s) ! q) =
        pstate (promises s ! q))"
  by (induction ps arbitrary: s) simp_all

lemma distinct_notLoaded: "distinct (notLoaded s)"
  by (simp add: notLoaded_def)

lemma set_notLoaded: "set (notLoaded s) = {i. i < length (images s) \<and> \<not> loaded (images s ! i)}"
  by (auto simp: notLoaded_def)

lemma count_list_distinct: "distinct xs \<Longrightarrow> count_list xs x = (if x \<in> set xs then 1 else 0)"
  by (induction xs) auto

lemma zip_right_unique:
  assumes "distinct ys" and "(a, y) \<in> set (zip xs ys)" and "(b, y) \<in> set (zip xs ys)"
  shows "a = b"
proof -
  from assms(2) obtain k where k: "k < length xs" "k < length ys" "xs ! k = a" "ys ! k = y"
    by (auto simp: in_set_zip)
  from assms(3) obtain l where l: "l < length xs" "l < length ys" "xs ! l = b" "ys ! l = y"
    by (auto simp: in_set_zip)
  from k l have "k = l"
    using nth_eq_iff_index_eq [OF assms(1), of k l] by simp
  with k l show ?thesis
    by simp
qed

lemma well_formed_nth:
  "well_formed s \<Longrightarrow> k < length (images s) \<Longrightarrow>
   (\<forall>p\<in>set (load_listeners (images s ! k)). p < length (promises s)) \<and>
   (\<forall>p\<in>set (error_listeners (images s ! k)). p < length (promises s))"
  using nth_mem [of k "images s"] by (auto simp: well_formed_def list_all_iff)

text \<open>What \<^verbatim>\<open>loadAll\<close> leaves: every call it made is awaited.\<close>

lemma loadAll_awaited:
  assumes "well_formed s" and "(i, p) \<in> set (zip (notLoaded s) (fst (loadAll s)))"
  shows "awaited (snd (loadAll s)) i p"
proof -
  let ?sel = "notLoaded s"
  let ?n = "length (promises s)"
  let ?m = "mapLoadImage ?sel s"
  have sel: "\<forall>j\<in>set ?sel. j < length (images s) \<and> \<not> loaded (images s ! j)"
    by (simp add: set_notLoaded)
  note m = mapLoadImage_closed [OF sel]
  have ps: "fst (loadAll s) = [?n..<?n + length ?sel]"
    using m by (simp add: loadAll_def split_beta)
  have img: "images (snd (loadAll s)) = images (snd ?m)"
    by (simp add: loadAll_def split_beta forEach_attach_AllSettled)
  have pst: "pstate (promises (snd (loadAll s)) ! q) = pstate (promises (snd ?m) ! q)" for q
    by (simp add: loadAll_def split_beta forEach_attach_AllSettled)
  have len: "length (promises (snd (loadAll s))) = ?n + length ?sel"
    using m by (simp add: loadAll_def split_beta forEach_attach_AllSettled)
  from assms(2) have zip: "(i, p) \<in> set (zip ?sel (fst ?m))"
    by (simp add: loadAll_def split_beta)
  then have i: "i \<in> set ?sel" and p: "p \<in> set (fst ?m)"
    by (auto dest: set_zip_leftD set_zip_rightD)
  from i have i_len: "i < length (images s)" and i_not: "\<not> loaded (images s ! i)"
    by (simp_all add: set_notLoaded)
  from p m have p_range: "?n \<le> p" "p < ?n + length ?sel"
    by auto
  have on_i: "p \<in> set (load_listeners (images (snd ?m) ! i))"
    "p \<in> set (error_listeners (images (snd ?m) ! i))"
  proof -
    from zip have "p \<in> set (map snd (filter (\<lambda>jp. fst jp = i) (zip ?sel (fst ?m))))"
      by force
    with m show "p \<in> set (load_listeners (images (snd ?m) ! i))"
      "p \<in> set (error_listeners (images (snd ?m) ! i))"
      by simp_all
  qed
  have pending: "pstate (promises (snd ?m) ! p) = Pending"
    using m p_range by simp
  have elsewhere: "p \<notin> set (load_listeners (images (snd ?m) ! k)) \<and>
      p \<notin> set (error_listeners (images (snd ?m) ! k))"
    if "k < length (images s)" and "k \<noteq> i" for k
  proof -
    have "distinct (fst ?m)"
      using m by simp
    with zip that have not_k: "p \<notin> set (map snd (filter (\<lambda>jp. fst jp = k) (zip ?sel (fst ?m))))"
      by (auto dest: zip_right_unique)
    from well_formed_nth [OF assms(1) that(1)] p_range
    have "p \<notin> set (load_listeners (images s ! k))" "p \<notin> set (error_listeners (images s ! k))"
      by auto
    with not_k m show ?thesis
      by simp
  qed
  from m have len_img: "length (images (snd ?m)) = length (images s)"
    and still: "loaded (images (snd ?m) ! i) = loaded (images s ! i)"
    by blast+
  show ?thesis
    unfolding awaited_def img
    using i_len i_not on_i pending elsewhere len len_img still p_range pst
    by simp
qed

subsection \<open>Events at other images, and the event at the image itself\<close>

lemma awaited_step_other:
  assumes "awaited t i p" and "signal_target a = Some j" and "j \<noteq> i"
  shows "awaited (step a t) i p"
proof (cases "j < length (images t)")
  case False
  with assms(1,2) show ?thesis
    by (cases a) simp_all
next
  case True
  from assms(1) True assms(3) have away: "p \<notin> set (load_listeners (images t ! j))"
    "p \<notin> set (error_listeners (images t ! j))"
    by (simp_all add: awaited_def)
  show ?thesis
  proof (cases a)
    case (Load_event j')
    with assms(2) have a: "step a t = dispatchLoad j (load_listeners (images t ! j)) t"
      using True by (simp add: fireLoad_def)
    from assms(1,3) True away show ?thesis
      unfolding a awaited_def
      by (simp add: loaded_dispatchLoad load_listeners_dispatchLoad error_listeners_dispatchLoad
          promises_dispatchLoad)
  next
    case (Error_event j' e)
    with assms(2) have a: "step a t = dispatchError j e (error_listeners (images t ! j)) t"
      using True by (simp add: fireError_def)
    from assms(1,3) True away show ?thesis
      unfolding a awaited_def
      by (simp add: loaded_dispatchError load_listeners_dispatchError error_listeners_dispatchError
          promises_dispatchError)
  qed (use assms(2) in simp_all)
qed

lemma awaited_run_others:
  assumes "awaited t i p" and "list_all (\<lambda>a. signal_target a \<noteq> None) sch"
    and "Some i \<notin> set (map signal_target sch)"
  shows "awaited (run sch t) i p"
  using assms
proof (induction sch arbitrary: t)
  case Nil
  then show ?case by simp
next
  case (Cons a sch)
  from Cons.prems obtain j where "signal_target a = Some j" and "j \<noteq> i"
    by auto
  with Cons.prems(1) have "awaited (step a t) i p"
    by (rule awaited_step_other)
  with Cons.prems show ?case
    by (simp add: Cons.IH)
qed

lemma awaited_then_load:
  assumes "awaited t i p"
  shows "loaded (images (step (Load_event i) t) ! i) \<and>
         pstate (promises (step (Load_event i) t) ! p) = Fulfilled"
  using assms
  by (auto simp: awaited_def fireLoad_def loaded_dispatchLoad promises_dispatchLoad)

lemma awaited_then_error:
  assumes "awaited t i p"
  shows "\<not> loaded (images (step (Error_event i e) t) ! i) \<and>
         pstate (promises (step (Error_event i e) t) ! p) = Rejected e"
  using assms
  by (auto simp: awaited_def fireError_def loaded_dispatchError promises_dispatchError)

lemma settled_step:
  assumes "signal_target a = Some j" and "pstate (promises t ! p) \<noteq> Pending"
  shows "pstate (promises (step a t) ! p) = pstate (promises t ! p)"
  using assms
  by (cases a) (simp_all add: fireLoad_def fireError_def promises_dispatchLoad promises_dispatchError)

lemma loaded_step_other:
  assumes "signal_target a = Some j" and "j \<noteq> i"
  shows "loaded (images (step a t) ! i) = loaded (images t ! i)"
  using assms
  by (cases a) (simp_all add: fireLoad_def fireError_def loaded_dispatchLoad loaded_dispatchError)

lemma settled_run_others:
  assumes "list_all (\<lambda>a. signal_target a \<noteq> None) sch"
    and "Some i \<notin> set (map signal_target sch)" and "pstate (promises t ! p) \<noteq> Pending"
  shows "pstate (promises (run sch t) ! p) = pstate (promises t ! p) \<and>
         loaded (images (run sch t) ! i) = loaded (images t ! i)"
  using assms
proof (induction sch arbitrary: t)
  case Nil
  then show ?case by simp
next
  case (Cons a sch)
  from Cons.prems obtain j where j: "signal_target a = Some j" "j \<noteq> i"
    by auto
  from j(1) Cons.prems(3) have p: "pstate (promises (step a t) ! p) = pstate (promises t ! p)"
    by (rule settled_step)
  from j have l: "loaded (images (step a t) ! i) = loaded (images t ! i)"
    by (rule loaded_step_other)
  from Cons.prems p have "pstate (promises (run sch (step a t)) ! p) = pstate (promises (step a t) ! p) \<and>
      loaded (images (run sch (step a t)) ! i) = loaded (images (step a t) ! i)"
    by (intro Cons.IH) simp_all
  with p l show ?case
    by simp
qed


subsection \<open>One event for each image\<close>

lemma signal_split:
  assumes "distinct (map signal_target sch)" and "Some i \<in> set (map signal_target sch)"
  obtains pre a post where "sch = pre @ a # post" and "signal_target a = Some i"
    and "Some i \<notin> set (map signal_target pre)" and "Some i \<notin> set (map signal_target post)"
proof -
  from assms(2) obtain a where "a \<in> set sch" and a: "signal_target a = Some i"
    by auto
  then obtain pre post where sch: "sch = pre @ a # post"
    by (auto dest: split_list)
  with assms(1) a have "Some i \<notin> set (map signal_target pre)" "Some i \<notin> set (map signal_target post)"
    by auto
  with sch a that show thesis
    by blast
qed

lemma awaited_outcome:
  assumes "awaited t i p" and "list_all (\<lambda>a. signal_target a \<noteq> None) sch"
    and "distinct (map signal_target sch)" and "Some i \<in> set (map signal_target sch)"
  shows "pstate (promises (run sch t) ! p) \<noteq> Pending \<and>
         loaded (images (run sch t) ! i) = (Load_event i \<in> set sch)"
proof -
  from assms(3,4) obtain pre a post where sch: "sch = pre @ a # post"
    and a: "signal_target a = Some i"
    and pre: "Some i \<notin> set (map signal_target pre)"
    and post: "Some i \<notin> set (map signal_target post)"
    by (rule signal_split)
  from assms(2) sch have sig: "list_all (\<lambda>a. signal_target a \<noteq> None) pre"
    "list_all (\<lambda>a. signal_target a \<noteq> None) post"
    by simp_all
  let ?t = "run pre t"
  have run: "run sch t = run post (step a ?t)"
    by (simp add: sch run_append)
  from assms(1) sig(1) pre have aw: "awaited ?t i p"
    by (rule awaited_run_others)
  have others: "Load_event i \<notin> set pre" "Load_event i \<notin> set post"
    using pre post by force+
  show ?thesis
  proof (cases a)
    case (Load_event j)
    with a have [simp]: "a = Load_event i"
      by simp
    from awaited_then_load [OF aw]
    have now: "loaded (images (step a ?t) ! i)" "pstate (promises (step a ?t) ! p) = Fulfilled"
      by simp_all
    from now(2) have "pstate (promises (step a ?t) ! p) \<noteq> Pending"
      by simp
    from settled_run_others [OF sig(2) post this] now show ?thesis
      unfolding run by (simp add: sch)
  next
    case (Error_event j e)
    with a have [simp]: "a = Error_event i e"
      by simp
    from awaited_then_error [OF aw, of e]
    have now: "\<not> loaded (images (step a ?t) ! i)" "pstate (promises (step a ?t) ! p) = Rejected e"
      by simp_all
    from now(2) have "pstate (promises (step a ?t) ! p) \<noteq> Pending"
      by simp
    from settled_run_others [OF sig(2) post this] now others show ?thesis
      unfolding run by (simp add: sch)
  qed (use a in simp_all)
qed

lemma nth_not_in_take: "distinct xs \<Longrightarrow> k < length xs \<Longrightarrow> xs ! k \<notin> set (take k xs)"
  using id_take_nth_drop [of k xs] distinct_append [of "take k xs" "xs ! k # drop (Suc k) xs"]
  by auto

lemma loads_count:
  assumes "one_signal_each js sch" and "distinct js"
  shows "length (filter (\<lambda>i. Load_event i \<in> set sch) js) = length js - length (filter is_error_event sch)"
proof -
  from assms(1) have sig: "\<forall>a\<in>set sch. signal_target a \<noteq> None"
    and dist: "distinct (map signal_target sch)"
    and same: "set (map signal_target sch) = Some ` set js"
    by (simp_all add: one_signal_each_def list_all_iff)
  from dist have dsch: "distinct sch"
    by (simp add: distinct_map)
  have "length js = card (Some ` set js)"
    using assms(2) by (simp add: card_image distinct_card)
  also have "\<dots> = length (map signal_target sch)"
    using dist same distinct_card [of "map signal_target sch"] by simp
  finally have total: "length js = length sch"
    by simp
  have "Load_event ` {i \<in> set js. Load_event i \<in> set sch} = {a \<in> set sch. \<not> is_error_event a}"
  proof (intro equalityI subsetI)
    fix a
    assume "a \<in> Load_event ` {i \<in> set js. Load_event i \<in> set sch}"
    then show "a \<in> {a \<in> set sch. \<not> is_error_event a}"
      by auto
  next
    fix a
    assume "a \<in> {a \<in> set sch. \<not> is_error_event a}"
    then have a: "a \<in> set sch" "\<not> is_error_event a"
      by simp_all
    with sig obtain i where i: "a = Load_event i"
      by (cases a) auto
    with a(1) have "Some i \<in> set (map signal_target sch)"
      by force
    with same have "i \<in> set js"
      by auto
    with a(1) i show "a \<in> Load_event ` {i \<in> set js. Load_event i \<in> set sch}"
      by simp
  qed
  then have "card {a \<in> set sch. \<not> is_error_event a} = card (Load_event ` {i \<in> set js. Load_event i \<in> set sch})"
    by simp
  also have "\<dots> = card {i \<in> set js. Load_event i \<in> set sch}"
    by (rule card_image) (simp add: inj_on_def)
  finally have "length (filter (\<lambda>a. \<not> is_error_event a) sch) = length (filter (\<lambda>i. Load_event i \<in> set sch) js)"
    using assms(2) dsch by (simp add: distinct_length_filter Int_def conj_commute)
  with sum_length_filter_compl [of is_error_event sch] total show ?thesis
    by simp
qed


lemma allSettled_cases: "allSettled sts = Fulfilled \<or> allSettled sts = Pending"
  by (simp add: allSettled_def)

text \<open>
  C7. \<^verbatim>\<open>loadAll\<close> takes exactly the images without the class \<^verbatim>\<open>loaded\<close> and calls
  \<^verbatim>\<open>loadImage\<close> once on each of them and on no other. Its promise is never rejected.
  When afterwards every selected image gets its one event, \<^verbatim>\<open>load\<close> or \<^verbatim>\<open>error\<close>, in
  any order, the promise is pending as long as an event is outstanding and fulfilled
  when all have come; a selected image is loaded in the end exactly if its event was
  \<^verbatim>\<open>load\<close>, so of \<open>N\<close> selected images with \<open>M\<close> errors, \<open>N - M\<close> are loaded.
\<close>

theorem loadAll_settles:
  assumes "well_formed s" and "one_signal_each (notLoaded s) sch"
  shows "set (notLoaded s) = {i. i < length (images s) \<and> \<not> loaded (images s ! i)} \<and>
         (\<forall>i<length (images s).
            commits i (snd (loadAll s)) = (if loaded (images s ! i) then commits i s else Suc (commits i s))) \<and>
         (\<forall>k<length sch.
            loadAll_promise (fst (loadAll s)) (run (take k sch) (snd (loadAll s))) = Pending) \<and>
         loadAll_promise (fst (loadAll s)) (run sch (snd (loadAll s))) = Fulfilled \<and>
         (\<forall>t e. loadAll_promise (fst (loadAll s)) t \<noteq> Rejected e) \<and>
         (\<forall>i\<in>set (notLoaded s).
            loaded (images (run sch (snd (loadAll s))) ! i) = (Load_event i \<in> set sch)) \<and>
         length (filter (\<lambda>i. loaded (images (run sch (snd (loadAll s))) ! i)) (notLoaded s)) =
           length (notLoaded s) - length (filter is_error_event sch)"
proof -
  let ?sel = "notLoaded s"
  let ?ps = "fst (loadAll s)"
  let ?s1 = "snd (loadAll s)"
  from assms(2) have sig: "list_all (\<lambda>a. signal_target a \<noteq> None) sch"
    and dist: "distinct (map signal_target sch)"
    and same: "set (map signal_target sch) = Some ` set ?sel"
    by (simp_all add: one_signal_each_def)
  have sel: "\<forall>j\<in>set ?sel. j < length (images s) \<and> \<not> loaded (images s ! j)"
    by (simp add: set_notLoaded)
  note m = mapLoadImage_closed [OF sel]
  have len: "length ?ps = length ?sel"
    using m by (simp add: loadAll_def split_beta)
  have partner: "\<exists>p. (i, p) \<in> set (zip ?sel ?ps)" if "i \<in> set ?sel" for i
    using that len by (metis in_set_impl_in_set_zip1)
  have partner': "\<exists>i. (i, p) \<in> set (zip ?sel ?ps)" if "p \<in> set ?ps" for p
    using that len by (metis in_set_impl_in_set_zip2)
  have called: "commits i ?s1 = (if loaded (images s ! i) then commits i s else Suc (commits i s))"
    if "i < length (images s)" for i
  proof -
    have "commits i ?s1 = commits i (snd (mapLoadImage ?sel s))"
      by (simp add: commits_def loadAll_def split_beta forEach_attach_AllSettled)
    also have "\<dots> = commits i s + count_list ?sel i"
      using m by blast
    finally show ?thesis
      using that by (simp add: count_list_distinct distinct_notLoaded set_notLoaded)
  qed
  have outcome: "pstate (promises (run sch ?s1) ! p) \<noteq> Pending \<and>
      loaded (images (run sch ?s1) ! i) = (Load_event i \<in> set sch)"
    if "(i, p) \<in> set (zip ?sel ?ps)" for i p
  proof -
    from that have "i \<in> set ?sel"
      by (rule set_zip_leftD)
    with same have "Some i \<in> set (map signal_target sch)"
      by simp
    with loadAll_awaited [OF assms(1) that] sig dist show ?thesis
      by (intro awaited_outcome)
  qed
  have early: "loadAll_promise ?ps (run (take k sch) ?s1) = Pending" if "k < length sch" for k
  proof -
    from that same obtain i where i: "i \<in> set ?sel" "signal_target (sch ! k) = Some i"
      by (metis (no_types, lifting) image_iff length_map nth_map nth_mem)
    from dist that have "map signal_target sch ! k \<notin> set (take k (map signal_target sch))"
      by (intro nth_not_in_take) simp_all
    with that i have out: "Some i \<notin> set (map signal_target (take k sch))"
      by (simp add: take_map)
    from sig have "list_all (\<lambda>a. signal_target a \<noteq> None) (take k sch)"
      by (auto simp: list_all_iff dest: in_set_takeD)
    moreover from partner [OF i(1)] obtain p where p: "(i, p) \<in> set (zip ?sel ?ps)"
      by blast
    ultimately have "awaited (run (take k sch) ?s1) i p"
      using loadAll_awaited [OF assms(1) p] out by (intro awaited_run_others)
    then have "pstate (promises (run (take k sch) ?s1) ! p) = Pending"
      by (simp add: awaited_def)
    moreover from p have "p \<in> set ?ps"
      by (rule set_zip_rightD)
    ultimately show ?thesis
      by (auto simp: loadAll_promise_def allSettled_def list_all_iff)
  qed
  have finished: "loadAll_promise ?ps (run sch ?s1) = Fulfilled"
  proof -
    have "pstate (promises (run sch ?s1) ! p) \<noteq> Pending" if "p \<in> set ?ps" for p
      using partner' [OF that] outcome by blast
    then show ?thesis
      by (simp add: loadAll_promise_def allSettled_def list_all_iff)
  qed
  have never: "loadAll_promise ?ps t \<noteq> Rejected e" for t e
    using allSettled_cases [of "map (\<lambda>p. pstate (promises t ! p)) ?ps"]
    by (auto simp: loadAll_promise_def)
  have ends: "loaded (images (run sch ?s1) ! i) = (Load_event i \<in> set sch)" if "i \<in> set ?sel" for i
    using partner [OF that] outcome by blast
  then have "filter (\<lambda>i. loaded (images (run sch ?s1) ! i)) ?sel = filter (\<lambda>i. Load_event i \<in> set sch) ?sel"
    by (intro filter_cong) simp_all
  with loads_count [OF assms(2) distinct_notLoaded]
  have count: "length (filter (\<lambda>i. loaded (images (run sch ?s1) ! i)) ?sel) =
      length ?sel - length (filter is_error_event sch)"
    by simp
  from set_notLoaded called early finished never ends count show ?thesis
    by blast
qed

theorem loadAll_settles_witness:
  "well_formed (init gallery) \<and>
   one_signal_each (notLoaded (init gallery)) [Error_event 1 7, Load_event 0] \<and>
   notLoaded (init gallery) = [0, 1] \<and>
   loadAll_promise (fst (loadAll (init gallery))) (snd (loadAll (init gallery))) = Pending \<and>
   loadAll_promise (fst (loadAll (init gallery)))
     (run [Error_event 1 7] (snd (loadAll (init gallery)))) = Pending \<and>
   loadAll_promise (fst (loadAll (init gallery)))
     (run [Error_event 1 7, Load_event 0] (snd (loadAll (init gallery)))) = Fulfilled \<and>
   loaded (images (run [Error_event 1 7, Load_event 0] (snd (loadAll (init gallery)))) ! 0) \<and>
   \<not> loaded (images (run [Error_event 1 7, Load_event 0] (snd (loadAll (init gallery)))) ! 1) \<and>
   length (filter (\<lambda>i. loaded (images (run [Error_event 1 7, Load_event 0] (snd (loadAll (init gallery)))) ! i))
     (notLoaded (init gallery))) = 1"
proof -
  have h1: "well_formed (init gallery)"
    and h2: "one_signal_each (notLoaded (init gallery)) [Error_event 1 7, Load_event 0]"
    and h3: "notLoaded (init gallery) = [0, 1]"
    by code_simp+
  note main = loadAll_settles [OF h1 h2]
  from main have early: "\<forall>k<2. loadAll_promise (fst (loadAll (init gallery)))
      (run (take k [Error_event 1 7, Load_event 0]) (snd (loadAll (init gallery)))) = Pending"
    by simp
  from early [rule_format, of 0] early [rule_format, of 1]
  have e: "loadAll_promise (fst (loadAll (init gallery))) (snd (loadAll (init gallery))) = Pending"
    "loadAll_promise (fst (loadAll (init gallery)))
      (run [Error_event 1 7] (snd (loadAll (init gallery)))) = Pending"
    by simp_all
  from main have f: "loadAll_promise (fst (loadAll (init gallery)))
      (run [Error_event 1 7, Load_event 0] (snd (loadAll (init gallery)))) = Fulfilled"
    by blast
  from main have "\<forall>i\<in>set (notLoaded (init gallery)).
      loaded (images (run [Error_event 1 7, Load_event 0] (snd (loadAll (init gallery)))) ! i) =
        (Load_event i \<in> set [Error_event 1 7, Load_event 0])"
    by blast
  then have l: "loaded (images (run [Error_event 1 7, Load_event 0] (snd (loadAll (init gallery)))) ! 0)"
    "\<not> loaded (images (run [Error_event 1 7, Load_event 0] (snd (loadAll (init gallery)))) ! 1)"
    unfolding h3 by simp_all
  from main have c: "length (filter (\<lambda>i. loaded (images (run [Error_event 1 7, Load_event 0] (snd (loadAll (init gallery)))) ! i))
     (notLoaded (init gallery))) = 1"
    unfolding h3 by simp
  from h1 h2 h3 e f l c show ?thesis
    by blast
qed

section \<open>What holds in every state the script can reach\<close>

subsection \<open>Listeners name promises of the store\<close>

lemma well_formed_iff:
  "well_formed s \<longleftrightarrow>
     (\<forall>k<length (images s).
        (\<forall>p\<in>set (load_listeners (images s ! k)). p < length (promises s)) \<and>
        (\<forall>p\<in>set (error_listeners (images s ! k)). p < length (promises s)))"
  by (simp add: well_formed_def list_all_length [of _ "images s"]) (simp add: list_all_iff)

lemma well_formed_same:
  assumes "well_formed s" and "length (images t) = length (images s)"
    and "\<And>k. k < length (images s) \<Longrightarrow>
           set (load_listeners (images t ! k)) \<subseteq> set (load_listeners (images s ! k)) \<and>
           set (error_listeners (images t ! k)) \<subseteq> set (error_listeners (images s ! k))"
    and "length (promises s) \<le> length (promises t)"
  shows "well_formed t"
  unfolding well_formed_iff
proof (intro allI impI)
  fix k
  assume "k < length (images t)"
  with assms(2) have k: "k < length (images s)"
    by simp
  from assms(1) k have "\<forall>p\<in>set (load_listeners (images s ! k)). p < length (promises s)"
    "\<forall>p\<in>set (error_listeners (images s ! k)). p < length (promises s)"
    by (simp_all add: well_formed_iff)
  with assms(3) [OF k] assms(4)
  show "(\<forall>p\<in>set (load_listeners (images t ! k)). p < length (promises t)) \<and>
        (\<forall>p\<in>set (error_listeners (images t ! k)). p < length (promises t))"
    by fastforce
qed

lemma well_formed_loadImage: "well_formed s \<Longrightarrow> well_formed (snd (loadImage i s))"
  unfolding well_formed_iff
  by (auto simp: loadImage_fields less_Suc_eq)

lemma listeners_upd_btn [simp]:
  "load_listeners (images (upd_btn i f s) ! k) = load_listeners (images s ! k)"
  "error_listeners (images (upd_btn i f s) ! k) = error_listeners (images s ! k)"
  by (simp_all add: images_upd_btn_nth)

lemma listeners_attach [simp]:
  "load_listeners (images (attach p r s) ! k) = load_listeners (images s ! k)"
  "error_listeners (images (attach p r s) ! k) = error_listeners (images s ! k)"
  by (simp_all add: attach_def Let_def split: pstate.split)

lemma well_formed_upd_btn: "well_formed s \<Longrightarrow> well_formed (upd_btn i f s)"
  by (erule well_formed_same) simp_all

lemma well_formed_attach: "well_formed s \<Longrightarrow> well_formed (attach p r s)"
  by (erule well_formed_same) simp_all

lemma well_formed_io [simp]:
  "well_formed (ensureObserver s) = well_formed s" "well_formed (observe i s) = well_formed s"
  "well_formed (unobserve i s) = well_formed s"
  "well_formed (disconnectObserver s) = well_formed s"
  by (simp_all add: well_formed_def)

lemma well_formed_clickHandler: "well_formed s \<Longrightarrow> well_formed (clickHandler i s)"
  by (simp add: clickHandler_def split_beta well_formed_attach well_formed_loadImage
      well_formed_upd_btn)

lemma well_formed_activate: "well_formed s \<Longrightarrow> well_formed (activate i s)"
proof -
  have "well_formed ((clickHandler i ^^ n) s)" if "well_formed s" for n
    using that by (induction n) (simp_all add: well_formed_clickHandler)
  then show "well_formed s \<Longrightarrow> well_formed (activate i s)"
    by (simp add: activate_def split: option.split)
qed

lemma well_formed_fireLoad:
  "well_formed s \<Longrightarrow> i < length (images s) \<Longrightarrow> well_formed (fireLoad i s)"
  by (erule well_formed_same)
    (auto simp: fireLoad_def load_listeners_dispatchLoad error_listeners_dispatchLoad)

lemma well_formed_fireError:
  "well_formed s \<Longrightarrow> i < length (images s) \<Longrightarrow> well_formed (fireError i e s)"
  by (erule well_formed_same)
    (auto simp: fireError_def load_listeners_dispatchError error_listeners_dispatchError)

lemma well_formed_onEntry: "well_formed s \<Longrightarrow> well_formed (onEntry en s)"
  by (simp add: onEntry_def split_beta well_formed_attach well_formed_loadImage)

lemma well_formed_deliver: "well_formed s \<Longrightarrow> well_formed (deliver ens s)"
proof -
  have "well_formed (observerCallback es s)" if "well_formed s" for es s
    using that by (induction es arbitrary: s) (simp_all add: well_formed_onEntry)
  then show "well_formed s \<Longrightarrow> well_formed (deliver ens s)"
    by (simp add: deliver_def split: option.split)
qed

lemma well_formed_upd_img_attr:
  assumes "well_formed s"
    and "\<And>im. load_listeners (f im) = load_listeners im \<and> error_listeners (f im) = error_listeners im"
  shows "well_formed (upd_img i f s)"
  using assms(1) by (rule well_formed_same) (simp_all add: images_upd_img_nth assms(2))

lemma well_formed_toggleImage: "well_formed s \<Longrightarrow> well_formed (toggleImage j s)"
  by (simp add: toggleImage_def Let_def well_formed_upd_btn well_formed_upd_img_attr
      split: option.split)

lemma well_formed_setupImage: "well_formed s \<Longrightarrow> well_formed (setupImage j s)"
  by (simp add: setupImage_def well_formed_upd_btn)

lemma well_formed_forEach:
  "(\<And>j t. well_formed t \<Longrightarrow> well_formed (f j t)) \<Longrightarrow> well_formed s \<Longrightarrow>
   well_formed (forEach f js s)"
  by (induction js arbitrary: s) simp_all

lemma well_formed_toggleMode: "well_formed s \<Longrightarrow> well_formed (toggleMode b s)"
  unfolding toggleMode_def
  by (rule well_formed_forEach) (simp_all add: well_formed_toggleImage, simp add: well_formed_def)

lemma well_formed_init: "well_formed s \<Longrightarrow> well_formed (init s)"
  unfolding init_def setupImages_def
  by (rule well_formed_forEach) (simp_all add: well_formed_setupImage)

lemma well_formed_mapLoadImage: "well_formed s \<Longrightarrow> well_formed (snd (mapLoadImage js s))"
  by (induction js arbitrary: s) (simp_all add: split_beta well_formed_loadImage)

lemma well_formed_loadAll: "well_formed s \<Longrightarrow> well_formed (snd (loadAll s))"
  unfolding loadAll_def split_beta snd_conv
  by (rule well_formed_forEach) (simp_all add: well_formed_attach well_formed_mapLoadImage)

lemma well_formed_step: "well_formed s \<Longrightarrow> well_formed (step a s)"
  by (cases a)
    (simp_all add: well_formed_toggleMode well_formed_loadAll well_formed_activate
      well_formed_deliver well_formed_fireLoad well_formed_fireError)

lemma well_formed_run: "well_formed s \<Longrightarrow> well_formed (run as s)"
  by (induction as arbitrary: s) (simp_all add: well_formed_step)

lemma fresh_document_well_formed: "fresh_document s \<Longrightarrow> well_formed s"
  by (simp add: fresh_document_def well_formed_def list_all_iff)

lemma well_formed_reachable: "fresh_document s \<Longrightarrow> well_formed (run as (init s))"
  by (simp add: fresh_document_well_formed well_formed_init well_formed_run)


subsection \<open>The observer there is has been made\<close>

lemma observer_numbered_same:
  "io t = io s \<Longrightarrow> observers_made t = observers_made s \<Longrightarrow>
   observer_numbered t = observer_numbered s"
  by (auto simp: observer_numbered_def split: option.splits)

lemma observer_numbered_ensureObserver:
  "observer_numbered s \<Longrightarrow> observer_numbered (ensureObserver s)"
  by (auto simp: observer_numbered_def ensureObserver_def split: option.splits)

lemma observer_numbered_observe: "observer_numbered s \<Longrightarrow> observer_numbered (observe i s)"
  by (auto simp: observer_numbered_def observe_def split: option.splits)

lemma observer_numbered_unobserve: "observer_numbered s \<Longrightarrow> observer_numbered (unobserve i s)"
  by (auto simp: observer_numbered_def unobserve_def split: option.splits)

lemma observer_numbered_disconnectObserver: "observer_numbered (disconnectObserver s)"
  by (simp add: observer_numbered_def)

lemma observer_numbered_clickHandler [simp]:
  "observer_numbered (clickHandler i s) = observer_numbered s"
  by (rule observer_numbered_same) (simp_all add: clickHandler_def split_beta)

lemma observer_numbered_activate: "observer_numbered s \<Longrightarrow> observer_numbered (activate i s)"
proof -
  have "observer_numbered ((clickHandler i ^^ n) s) = observer_numbered s" for n
    by (induction n) simp_all
  then show "observer_numbered s \<Longrightarrow> observer_numbered (activate i s)"
    by (simp add: activate_def split: option.split)
qed

lemma observer_numbered_fire [simp]:
  "observer_numbered (fireLoad i s) = observer_numbered s"
  "observer_numbered (fireError i e s) = observer_numbered s"
  by (rule observer_numbered_same; simp add: fireLoad_def fireError_def)+

lemma observer_numbered_onEntry: "observer_numbered s \<Longrightarrow> observer_numbered (onEntry en s)"
proof -
  have "observer_numbered (attach p r (snd (loadImage i s))) = observer_numbered s" for p r i
    by (rule observer_numbered_same) simp_all
  then show "observer_numbered s \<Longrightarrow> observer_numbered (onEntry en s)"
    by (simp add: onEntry_def split_beta observer_numbered_unobserve)
qed

lemma observer_numbered_deliver: "observer_numbered s \<Longrightarrow> observer_numbered (deliver ens s)"
proof -
  have "observer_numbered (observerCallback es s)" if "observer_numbered s" for es s
    using that by (induction es arbitrary: s) (simp_all add: observer_numbered_onEntry)
  then show "observer_numbered s \<Longrightarrow> observer_numbered (deliver ens s)"
    by (simp add: deliver_def split: option.split)
qed

lemma observer_numbered_upd [simp]:
  "observer_numbered (upd_img i f s) = observer_numbered s"
  "observer_numbered (upd_btn i g s) = observer_numbered s"
  by (rule observer_numbered_same; simp)+

lemma observer_numbered_toggleImage:
  "observer_numbered s \<Longrightarrow> observer_numbered (toggleImage j s)"
  by (simp add: toggleImage_def Let_def observer_numbered_observe observer_numbered_ensureObserver
      observer_numbered_unobserve split: option.split)

lemma observer_numbered_setupImage:
  "observer_numbered s \<Longrightarrow> observer_numbered (setupImage j s)"
  by (simp add: setupImage_def observer_numbered_observe observer_numbered_ensureObserver)

lemma observer_numbered_forEach:
  "(\<And>j t. observer_numbered t \<Longrightarrow> observer_numbered (f j t)) \<Longrightarrow> observer_numbered s \<Longrightarrow>
   observer_numbered (forEach f js s)"
  by (induction js arbitrary: s) simp_all

lemma observer_numbered_toggleMode:
  "observer_numbered s \<Longrightarrow> observer_numbered (toggleMode b s)"
  unfolding toggleMode_def
  by (rule observer_numbered_forEach)
    (simp_all add: observer_numbered_toggleImage, auto simp: observer_numbered_def split: option.splits)

lemma observer_numbered_init: "observer_numbered s \<Longrightarrow> observer_numbered (init s)"
  unfolding init_def setupImages_def
  by (rule observer_numbered_forEach) (simp_all add: observer_numbered_setupImage)

lemma observer_mapLoadImage:
  "io (snd (mapLoadImage js s)) = io s \<and>
   observers_made (snd (mapLoadImage js s)) = observers_made s"
  by (induction js arbitrary: s) (simp_all add: split_beta)

lemma observer_forEach_attach:
  "io (forEach (\<lambda>p. attach p r) ps s) = io s \<and>
   observers_made (forEach (\<lambda>p. attach p r) ps s) = observers_made s"
  by (induction ps arbitrary: s) simp_all

lemma observer_numbered_loadAll [simp]:
  "observer_numbered (snd (loadAll s)) = observer_numbered s"
  by (rule observer_numbered_same)
    (simp_all add: loadAll_def split_beta observer_forEach_attach observer_mapLoadImage)

lemma observer_numbered_step: "observer_numbered s \<Longrightarrow> observer_numbered (step a s)"
  by (cases a)
    (simp_all add: observer_numbered_toggleMode observer_numbered_activate
      observer_numbered_deliver observer_numbered_disconnectObserver)

lemma observer_numbered_run: "observer_numbered s \<Longrightarrow> observer_numbered (run as s)"
  by (induction as arbitrary: s) (simp_all add: observer_numbered_step)

lemma observer_numbered_reachable: "fresh_document s \<Longrightarrow> observer_numbered (run as (init s))"
  by (rule observer_numbered_run, rule observer_numbered_init)
    (simp add: fresh_document_def observer_numbered_def)

end
